theory Spec2Isabelle
  imports Main
begin

text \<open>
  A shallow embedding of \<open>main.cpp\<close>: the class template \<open>Matrix<T>\<close> with its serial,
  task-based (\<open>std::async\<close>) and thread-pool (\<open>std::thread\<close>) multiplications. The
  concurrent multipliers are run under every interleaving of the reads and writes of their
  units of execution; exceptions and undefined behaviour are values of \<open>error\<close>.
\<close>

section \<open>Matrix container\<close>

text \<open>
  The class template \<open>Matrix<T>\<close> of \<open>main.cpp\<close>: a vector of rows (\<open>data\<close>) with the
  two dimensions stored beside it. The element type \<open>T\<close> is the type parameter \<open>'a\<close>; the
  code only uses its \<open>0\<close>, \<open>+\<close> and \<open>*\<close>. The dimensions are \<open>size_t\<close>; no index of
  the code ever exceeds a dimension, so no \<open>size_t\<close> computation wraps and \<open>nat\<close> is exact.
\<close>

datatype error =
    DimensionMismatch  \<comment> \<open>\<open>std::invalid_argument\<close>, thrown by the dimension check\<close>
  | DivisionByZero     \<comment> \<open>undefined behaviour: integer division or remainder by zero\<close>
  | OutOfBounds        \<comment> \<open>undefined behaviour: \<open>operator[]\<close> beyond a vector's size\<close>

record 'a Matrix =
  data :: "'a list list"
  rows :: nat
  cols :: nat

text \<open>The constructor \<open>Matrix(r, c)\<close>: \<open>r\<close> rows of \<open>c\<close> zeros.\<close>

definition Matrix_new :: "nat \<Rightarrow> nat \<Rightarrow> ('a::zero) Matrix" where
  "Matrix_new r c = \<lparr>data = replicate r (replicate c 0), rows = r, cols = c\<rparr>"

text \<open>
  The class invariant: \<open>data\<close> has \<open>rows\<close> rows of \<open>cols\<close> elements each. The constructor
  establishes it and no member function changes the shape of \<open>data\<close>.
\<close>

definition wf_Matrix :: "'a Matrix \<Rightarrow> bool" where
  "wf_Matrix m \<longleftrightarrow> length (data m) = rows m \<and> list_all (\<lambda>row. length row = cols m) (data m)"

section \<open>The memory a multiplication works on\<close>

text \<open>
  A call \<open>A.multiply_*(B)\<close> reaches three matrices: \<open>*this\<close> and \<open>other\<close> (both
  \<open>const\<close>) and the local \<open>result\<close>. The lambdas of the concurrent multipliers capture
  all three by reference, so a loop body reads them when it runs.
\<close>

record 'a frame =
  this :: "'a Matrix"
  other :: "'a Matrix"
  result :: "'a Matrix"

text \<open>One iteration \<open>(i, j, k)\<close> of the loop nest.\<close>

type_synonym iter = "nat \<times> nat \<times> nat"

text \<open>\<open>m.data[i][j]\<close> is defined only inside both vectors.\<close>

definition in_range :: "'a Matrix \<Rightarrow> nat \<Rightarrow> nat \<Rightarrow> bool" where
  "in_range m i j \<longleftrightarrow> i < length (data m) \<and> j < length (data m ! i)"

text \<open>
  The statement \<open>result.data[i][j] += data[i][k] * other.data[k][j]\<close> reads three
  elements and writes one. \<open>load\<close> is the value it computes from the reads and \<open>store\<close>
  the write; an access out of range is undefined behaviour (\<open>None\<close>).
\<close>

definition load :: "('a::{plus,times}) frame \<Rightarrow> iter \<Rightarrow> 'a option" where
  "load s it =
    (case it of (i, j, k) \<Rightarrow>
      if in_range (result s) i j \<and> in_range (this s) i k \<and> in_range (other s) k j
      then Some (data (result s) ! i ! j + data (this s) ! i ! k * data (other s) ! k ! j)
      else None)"

definition store :: "'a frame \<Rightarrow> iter \<Rightarrow> 'a \<Rightarrow> 'a frame option" where
  "store s it v =
    (case it of (i, j, k) \<Rightarrow>
      if in_range (result s) i j
      then Some (s\<lparr>result := (result s)\<lparr>data :=
             (data (result s))[i := (data (result s) ! i)[j := v]]\<rparr>\<rparr>)
      else None)"

text \<open>The whole statement, as one thread runs it.\<close>

definition body :: "('a::{plus,times}) frame \<Rightarrow> iter \<Rightarrow> (error \<times> 'a frame) + 'a frame" where
  "body s it =
    (case load s it of
       None \<Rightarrow> Inl (OutOfBounds, s)
     | Some v \<Rightarrow>
         (case store s it v of
            None \<Rightarrow> Inl (OutOfBounds, s)
          | Some s' \<Rightarrow> Inr s'))"

text \<open>
  The frame after the statement when its accesses are in range, which is what \<open>body\<close>
  returns then.
\<close>

definition accumulate :: "('a::{plus,times}) frame \<Rightarrow> iter \<Rightarrow> 'a frame" where
  "accumulate s it =
    (case it of (i, j, k) \<Rightarrow>
      s\<lparr>result := (result s)\<lparr>data :=
        (data (result s))[i := (data (result s) ! i)[j :=
          data (result s) ! i ! j + data (this s) ! i ! k * data (other s) ! k ! j]]\<rparr>\<rparr>)"

text \<open>A \<open>for\<close> loop over a list of indices: the state is passed on, the first fault ends it.\<close>

fun for_each :: "('s \<Rightarrow> 'x \<Rightarrow> ('e \<times> 's) + 's) \<Rightarrow> 'x list \<Rightarrow> 's \<Rightarrow> ('e \<times> 's) + 's" where
  "for_each f [] s = Inr s"
| "for_each f (x # xs) s = (case f s x of Inl e \<Rightarrow> Inl e | Inr s' \<Rightarrow> for_each f xs s')"

section \<open>Serial multiplier\<close>

text \<open>
  What a call hands back to its caller: the returned matrix or the fault, and the two
  operands as the call leaves them.
\<close>

type_synonym 'a call = "(error + 'a Matrix) \<times> 'a Matrix \<times> 'a Matrix"

text \<open>
  The frame when the loops start: the operands and \<open>Matrix<T> result(rows, other.cols)\<close>.
\<close>

definition fresh :: "('a::zero) Matrix \<Rightarrow> 'a Matrix \<Rightarrow> 'a frame" where
  "fresh A B = \<lparr>this = A, other = B, result = Matrix_new (rows A) (cols B)\<rparr>"

text \<open>The three nested loops of \<open>multiply_serial\<close> (lines 45 to 54).\<close>

definition serial_loops :: "('a::{plus,times}) frame \<Rightarrow> (error \<times> 'a frame) + 'a frame" where
  "serial_loops s0 =
    for_each (\<lambda>s i.
      for_each (\<lambda>s j.
        for_each (\<lambda>s k. body s (i, j, k)) [0..<cols (this s)] s)
        [0..<cols (other s)] s)
      [0..<rows (this s0)] s0"

definition finish :: "(error \<times> 'a frame) + 'a frame \<Rightarrow> 'a call" where
  "finish r = (case r of
      Inl (e, s) \<Rightarrow> (Inl e, this s, other s)
    | Inr s \<Rightarrow> (Inr (result s), this s, other s))"

definition multiply_serial :: "('a::{zero,plus,times}) Matrix \<Rightarrow> 'a Matrix \<Rightarrow> 'a call" where
  "multiply_serial A B =
    (if cols A \<noteq> rows B then (Inl DimensionMismatch, A, B)
     else finish (serial_loops (fresh A B)))"

section \<open>Units of execution and schedules\<close>

text \<open>
  A unit of execution (a \<open>std::async\<close> task or a \<open>std::thread\<close>) runs a loop nest whose
  bounds are fixed when it is launched. Its state is the list of iterations it still has
  to run and, between the reads and the write of the first of them, the value it is about
  to write. The scheduler is a list of thread numbers: at each entry the named thread
  takes its next step on the shared frame, the reads of an iteration or its write. An
  entry naming no thread, or a thread that has finished, is not a step of any execution
  (\<open>None\<close>).
\<close>

type_synonym 'a thread = "iter list \<times> 'a option"

definition step ::
  "nat \<Rightarrow> ('a::{plus,times}) thread list \<times> 'a frame
     \<Rightarrow> ((error \<times> 'a frame) + 'a thread list \<times> 'a frame) option" where
  "step n c =
    (case c of (ts, s) \<Rightarrow>
      if n < length ts then
        (case ts ! n of
           ([], pending) \<Rightarrow> None
         | (it # rest, None) \<Rightarrow>
             Some (case load s it of
                     None \<Rightarrow> Inl (OutOfBounds, s)
                   | Some v \<Rightarrow> Inr (ts[n := (it # rest, Some v)], s))
         | (it # rest, Some v) \<Rightarrow>
             Some (case store s it v of
                     None \<Rightarrow> Inl (OutOfBounds, s)
                   | Some s' \<Rightarrow> Inr (ts[n := (rest, None)], s')))
      else None)"

fun run ::
  "nat list \<Rightarrow> ('a::{plus,times}) thread list \<times> 'a frame
     \<Rightarrow> ((error \<times> 'a frame) + 'a thread list \<times> 'a frame) option" where
  "run [] c = Some (Inr c)"
| "run (n # ns) c =
    (case step n c of
       None \<Rightarrow> None
     | Some (Inl e) \<Rightarrow> Some (Inl e)
     | Some (Inr c') \<Rightarrow> run ns c')"

text \<open>
  The loops over \<open>fut.wait()\<close> and \<open>thread.join()\<close> return when every unit has finished:
  a schedule is an execution of the call when it leaves no iteration behind.
\<close>

definition join_all ::
  "nat list \<Rightarrow> ('a::{plus,times}) thread list \<times> 'a frame
     \<Rightarrow> ((error \<times> 'a frame) + 'a frame) option" where
  "join_all sched c =
    (case run sched c of
       None \<Rightarrow> None
     | Some (Inl e) \<Rightarrow> Some (Inl e)
     | Some (Inr (ts, s)) \<Rightarrow> if list_all (\<lambda>t. fst t = []) ts then Some (Inr s) else None)"

text \<open>A unit of execution as it is launched.\<close>

definition launch :: "iter list \<Rightarrow> 'a thread" where
  "launch its = (its, None)"

text \<open>A call that throws before it launches anything has the empty schedule only.\<close>

definition throw_early :: "nat list \<Rightarrow> error \<Rightarrow> 'a Matrix \<Rightarrow> 'a Matrix \<Rightarrow> 'a call option" where
  "throw_early sched e A B = (if sched = [] then Some (Inl e, A, B) else None)"

section \<open>Task-based multiplier\<close>

text \<open>The iterations of the lambda of \<open>multiply_async\<close> for row \<open>i\<close> (lines 74 to 78).\<close>

definition row_task :: "'a Matrix \<Rightarrow> 'a Matrix \<Rightarrow> nat \<Rightarrow> iter list" where
  "row_task A B i = concat (map (\<lambda>j. map (\<lambda>k. (i, j, k)) [0..<cols A]) [0..<cols B])"

text \<open>The loop of lines 70 to 79 launches one unit of execution per row.\<close>

definition async_tasks :: "'a Matrix \<Rightarrow> 'a Matrix \<Rightarrow> 'a thread list" where
  "async_tasks A B = map (\<lambda>i. launch (row_task A B i)) [0..<rows A]"

definition multiply_async ::
  "nat list \<Rightarrow> ('a::{zero,plus,times}) Matrix \<Rightarrow> 'a Matrix \<Rightarrow> 'a call option" where
  "multiply_async sched A B =
    (if cols A \<noteq> rows B then throw_early sched DimensionMismatch A B
     else map_option finish (join_all sched (async_tasks A B, fresh A B)))"

section \<open>Thread-pool multiplier\<close>

text \<open>
  Lines 103 to 122: the pairs \<open>(start, thread_rows)\<close> that the launched lambdas capture, in
  launch order. \<open>rows / num_threads\<close> and \<open>rows % num_threads\<close> are undefined for
  \<open>num_threads = 0\<close>.
\<close>

definition partition_rows :: "nat \<Rightarrow> nat \<Rightarrow> error + (nat \<times> nat) list" where
  "partition_rows nrows num_threads =
    (if num_threads = 0 then Inl DivisionByZero
     else
       let chunk_size = nrows div num_threads;
           remainder = nrows mod num_threads
       in Inr (snd (foldl
            (\<lambda>(start, threads) t.
               let thread_rows = chunk_size + (if t < remainder then 1 else 0)
               in (start + thread_rows, threads @ [(start, thread_rows)]))
            (0, []) [0..<num_threads])))"

text \<open>The iterations of the lambda of \<open>multiply_thread_pool\<close> (lines 113 to 119).\<close>

definition chunk_task :: "'a Matrix \<Rightarrow> 'a Matrix \<Rightarrow> nat \<Rightarrow> nat \<Rightarrow> iter list" where
  "chunk_task A B start thread_rows = concat (map (row_task A B) [start..<start + thread_rows])"

definition pool_tasks :: "'a Matrix \<Rightarrow> 'a Matrix \<Rightarrow> (nat \<times> nat) list \<Rightarrow> 'a thread list" where
  "pool_tasks A B parts =
    map (\<lambda>(start, thread_rows). launch (chunk_task A B start thread_rows)) parts"

text \<open>
  \<open>hardware_concurrency\<close> is the value \<open>std::thread::hardware_concurrency()\<close> returns; the
  standard lets it be 0 when the value is not computable.
\<close>

definition multiply_thread_pool ::
  "nat \<Rightarrow> nat list \<Rightarrow> ('a::{zero,plus,times}) Matrix \<Rightarrow> 'a Matrix \<Rightarrow> 'a call option" where
  "multiply_thread_pool hardware_concurrency sched A B =
    (if cols A \<noteq> rows B then throw_early sched DimensionMismatch A B
     else
       (case partition_rows (rows A) hardware_concurrency of
          Inl e \<Rightarrow> throw_early sched e A B
        | Inr parts \<Rightarrow> map_option finish (join_all sched (pool_tasks A B parts, fresh A B))))"

section \<open>Invariants and closed forms used in the proofs\<close>

text \<open>
  The frame of a running call: the operands are the arguments, and \<open>result\<close> has kept the
  shape it was constructed with.
\<close>

definition ready :: "'a Matrix \<Rightarrow> 'a Matrix \<Rightarrow> 'a frame \<Rightarrow> bool" where
  "ready A B s \<longleftrightarrow>
     this s = A \<and> other s = B \<and> rows (result s) = rows A \<and> cols (result s) = cols B \<and>
     wf_Matrix (result s)"

text \<open>An iteration inside the bounds of the three loops.\<close>

definition valid_iter :: "'a Matrix \<Rightarrow> 'a Matrix \<Rightarrow> iter \<Rightarrow> bool" where
  "valid_iter A B it = (case it of (i, j, k) \<Rightarrow> i < rows A \<and> j < cols B \<and> k < cols A)"

text \<open>No two units of execution have an iteration on the same row.\<close>

definition disjoint_rows :: "iter list list \<Rightarrow> bool" where
  "disjoint_rows ts \<longleftrightarrow>
     (\<forall>m<length ts. \<forall>n<length ts. m \<noteq> n \<longrightarrow> fst ` set (ts ! m) \<inter> fst ` set (ts ! n) = {})"

definition finished :: "'a thread list \<Rightarrow> bool" where
  "finished ts = list_all (\<lambda>t. fst t = []) ts"

text \<open>
  A value that a thread has computed and not yet written is still what the reads of its
  iteration give.
\<close>

definition pending_ok :: "('a::{plus,times}) frame \<Rightarrow> 'a thread \<Rightarrow> bool" where
  "pending_ok s t =
    (case snd t of
       None \<Rightarrow> True
     | Some v \<Rightarrow> (case fst t of [] \<Rightarrow> False | it # rest \<Rightarrow> load s it = Some v))"

definition config_ok ::
  "('a::{plus,times}) Matrix \<Rightarrow> 'a Matrix \<Rightarrow> 'a thread list \<Rightarrow> 'a frame \<Rightarrow> bool" where
  "config_ok A B ts s \<longleftrightarrow>
     ready A B s \<and> disjoint_rows (map fst ts) \<and>
     list_all (list_all (valid_iter A B)) (map fst ts) \<and> list_all (pending_ok s) ts"

text \<open>The number of steps a thread list still has to take.\<close>

definition steps_left :: "'a thread \<Rightarrow> nat" where
  "steps_left t = 2 * length (fst t) - (case snd t of None \<Rightarrow> 0 | Some v \<Rightarrow> 1)"

definition work :: "'a thread list \<Rightarrow> nat" where
  "work ts = sum_list (map steps_left ts)"

text \<open>
  Closed forms of what the launch loop of the thread-pool multiplier computes for thread
  \<open>t\<close>: its first row and its number of rows.
\<close>

definition chunk_start :: "nat \<Rightarrow> nat \<Rightarrow> nat \<Rightarrow> nat" where
  "chunk_start chunk_size remainder t = t * chunk_size + min t remainder"

definition chunk_rows :: "nat \<Rightarrow> nat \<Rightarrow> nat \<Rightarrow> nat" where
  "chunk_rows chunk_size remainder t = chunk_size + (if t < remainder then 1 else 0)"

section \<open>Sample operands\<close>

text \<open>
  Operands for the concrete evaluations: the 2\<times>2 pair of the specification's concrete
  scenario, and the identity matrix of the identity check (the class has no constructor
  for it; it stands for an operand filled that way).
\<close>

definition sample_A :: "int Matrix" where
  "sample_A = \<lparr>data = [[1, 2], [3, 4]], rows = 2, cols = 2\<rparr>"

definition sample_B :: "int Matrix" where
  "sample_B = \<lparr>data = [[5, 6], [7, 8]], rows = 2, cols = 2\<rparr>"

definition sample_AB :: "int Matrix" where
  "sample_AB = \<lparr>data = [[19, 22], [43, 50]], rows = 2, cols = 2\<rparr>"

definition identity_Matrix :: "nat \<Rightarrow> ('a::{zero,one}) Matrix" where
  "identity_Matrix n =
    \<lparr>data = map (\<lambda>i. map (\<lambda>j. if i = j then 1 else 0) [0..<n]) [0..<n], rows = n, cols = n\<rparr>"

text \<open>
  An element type whose addition rounds, as floating-point addition does: next to a value
  of 8 or more an addend below 2 is lost. Its addition is not associative, so the order
  in which a sum is accumulated shows in the result.
\<close>

datatype coarse = Coarse nat

instantiation coarse :: "{zero,plus,times}"
begin

definition zero_coarse :: coarse where
  "zero_coarse = Coarse 0"

fun plus_coarse :: "coarse \<Rightarrow> coarse \<Rightarrow> coarse" where
  "plus_coarse (Coarse a) (Coarse b) =
     Coarse (if (8 \<le> a \<and> b < 2) \<or> (8 \<le> b \<and> a < 2) then max a b else a + b)"

fun times_coarse :: "coarse \<Rightarrow> coarse \<Rightarrow> coarse" where
  "times_coarse (Coarse a) (Coarse b) = Coarse (a * b)"

instance ..

end

definition rising :: "coarse Matrix" where
  "rising = \<lparr>data = [[Coarse 1, Coarse 1, Coarse 8]], rows = 1, cols = 3\<rparr>"

definition falling :: "coarse Matrix" where
  "falling = \<lparr>data = [[Coarse 8, Coarse 1, Coarse 1]], rows = 1, cols = 3\<rparr>"

definition ones :: "coarse Matrix" where
  "ones = \<lparr>data = [[Coarse 1], [Coarse 1], [Coarse 1]], rows = 3, cols = 1\<rparr>"

section \<open>Loops\<close>

lemma for_each_append:
  "for_each f (xs @ ys) s =
     (case for_each f xs s of Inl e \<Rightarrow> Inl e | Inr s' \<Rightarrow> for_each f ys s')"
  by (induction xs arbitrary: s) (auto split: sum.splits)

lemma for_each_concat:
  "for_each f (concat xss) s = for_each (\<lambda>s xs. for_each f xs s) xss s"
  by (induction xss arbitrary: s) (auto simp: for_each_append split: sum.splits)

lemma for_each_map: "for_each f (map h xs) s = for_each (\<lambda>s x. f s (h x)) xs s"
  by (induction xs arbitrary: s) (auto split: sum.splits)

lemma for_each_invariant:
  assumes "for_each f xs s = Inr s'" and "I s"
    and "\<And>s x s'. I s \<Longrightarrow> x \<in> set xs \<Longrightarrow> f s x = Inr s' \<Longrightarrow> I s'"
  shows "I s'"
  using assms
proof (induction xs arbitrary: s)
  case Nil
  then show ?case by simp
next
  case (Cons x xs)
  from Cons.prems(1) obtain s1 where s1: "f s x = Inr s1" and rest: "for_each f xs s1 = Inr s'"
    by (auto split: sum.splits)
  have "I s1" by (rule Cons.prems(3) [OF Cons.prems(2) _ s1]) simp
  moreover have "\<And>s y s'. I s \<Longrightarrow> y \<in> set xs \<Longrightarrow> f s y = Inr s' \<Longrightarrow> I s'"
    by (rule Cons.prems(3)) simp_all
  ultimately show ?case by (rule Cons.IH [OF rest])
qed

lemma for_each_cong_invariant:
  assumes "I s"
    and "\<And>s x. I s \<Longrightarrow> x \<in> set xs \<Longrightarrow> f s x = g s x"
    and "\<And>s x s'. I s \<Longrightarrow> x \<in> set xs \<Longrightarrow> g s x = Inr s' \<Longrightarrow> I s'"
  shows "for_each f xs s = for_each g xs s"
  using assms
proof (induction xs arbitrary: s)
  case Nil
  then show ?case by simp
next
  case (Cons x xs)
  have eq: "f s x = g s x" using Cons.prems(1,2) by simp
  show ?case
  proof (cases "g s x")
    case (Inl e)
    then show ?thesis using eq by simp
  next
    case (Inr s1)
    have "I s1" by (rule Cons.prems(3) [OF Cons.prems(1) _ Inr]) simp
    moreover have "\<And>s y. I s \<Longrightarrow> y \<in> set xs \<Longrightarrow> f s y = g s y"
      by (rule Cons.prems(2)) simp_all
    moreover have "\<And>s y s'. I s \<Longrightarrow> y \<in> set xs \<Longrightarrow> g s y = Inr s' \<Longrightarrow> I s'"
      by (rule Cons.prems(3)) simp_all
    ultimately have "for_each f xs s1 = for_each g xs s1"
      by (rule Cons.IH)
    then show ?thesis using eq Inr by simp
  qed
qed

section \<open>The loop body\<close>

lemma this_accumulate [simp]: "this (accumulate s it) = this s"
  by (simp add: accumulate_def split: prod.splits)

lemma other_accumulate [simp]: "other (accumulate s it) = other s"
  by (simp add: accumulate_def split: prod.splits)

lemma rows_result_accumulate [simp]: "rows (result (accumulate s it)) = rows (result s)"
  by (simp add: accumulate_def split: prod.splits)

lemma cols_result_accumulate [simp]: "cols (result (accumulate s it)) = cols (result s)"
  by (simp add: accumulate_def split: prod.splits)

lemma length_data_accumulate [simp]:
  "length (data (result (accumulate s it))) = length (data (result s))"
  by (simp add: accumulate_def split: prod.splits)

lemma length_row_accumulate [simp]:
  "length (data (result (accumulate s it)) ! i) = length (data (result s) ! i)"
proof -
  obtain i' j' k' where it: "it = (i', j', k')" by (cases it) auto
  show ?thesis
  proof (cases "i' < length (data (result s))")
    case True
    then show ?thesis by (cases "i' = i") (simp_all add: accumulate_def it)
  next
    case False
    then show ?thesis by (simp add: accumulate_def it list_update_beyond)
  qed
qed

lemma wf_result_accumulate [simp]:
  "wf_Matrix (result (accumulate s it)) = wf_Matrix (result s)"
  by (simp add: wf_Matrix_def list_all_length)

lemma in_range_result_accumulate [simp]:
  "in_range (result (accumulate s it)) i j = in_range (result s) i j"
  by (simp add: in_range_def)

lemma load_store: "load s it = Some v \<Longrightarrow> store s it v = Some (accumulate s it)"
  by (auto simp: load_def store_def accumulate_def split: prod.splits if_splits)

lemma body_load:
  "body s it = (case load s it of None \<Rightarrow> Inl (OutOfBounds, s) | Some v \<Rightarrow> Inr (accumulate s it))"
  by (auto simp: body_def load_store split: option.splits)

lemma body_Inr: "body s it = Inr s' \<Longrightarrow> s' = accumulate s it"
  by (auto simp: body_load split: option.splits)

lemma body_Inl: "body s it = Inl (e, s') \<Longrightarrow> e = OutOfBounds \<and> s' = s"
  by (auto simp: body_load split: option.splits)

lemma wf_Matrix_new [simp]: "wf_Matrix (Matrix_new r c)"
  by (simp add: wf_Matrix_def Matrix_new_def list_all_length)

lemma rows_Matrix_new [simp]: "rows (Matrix_new r c) = r"
  by (simp add: Matrix_new_def)

lemma cols_Matrix_new [simp]: "cols (Matrix_new r c) = c"
  by (simp add: Matrix_new_def)

lemma entry_Matrix_new: "i < r \<Longrightarrow> j < c \<Longrightarrow> data (Matrix_new r c) ! i ! j = 0"
  by (simp add: Matrix_new_def)

lemma wf_in_range: "wf_Matrix m \<Longrightarrow> i < rows m \<Longrightarrow> j < cols m \<Longrightarrow> in_range m i j"
  by (simp add: wf_Matrix_def in_range_def list_all_length)

lemma ready_fresh [simp]: "ready A B (fresh A B)"
  by (simp add: ready_def fresh_def)

lemma ready_accumulate: "ready A B s \<Longrightarrow> ready A B (accumulate s it)"
  by (simp add: ready_def)

lemma ready_foldl: "ready A B s \<Longrightarrow> ready A B (foldl accumulate s its)"
  by (induction its arbitrary: s) (simp_all add: ready_accumulate)

lemma body_valid:
  assumes "wf_Matrix A" "wf_Matrix B" "cols A = rows B" "ready A B s" "valid_iter A B it"
  shows "body s it = Inr (accumulate s it)"
proof -
  obtain i j k where it: "it = (i, j, k)" by (cases it) auto
  have b: "i < rows A" "j < cols B" "k < cols A"
    using assms(5) by (simp_all add: valid_iter_def it)
  have "in_range (result s) i j"
    using assms(4) b by (intro wf_in_range) (simp_all add: ready_def)
  moreover have "in_range (this s) i k"
    using assms(1,4) b by (intro wf_in_range) (simp_all add: ready_def)
  moreover have "in_range (other s) k j"
    using assms(2,3,4) b by (intro wf_in_range) (simp_all add: ready_def)
  ultimately show ?thesis by (simp add: body_load load_def it)
qed

lemma for_each_body_valid:
  assumes "wf_Matrix A" "wf_Matrix B" "cols A = rows B"
  shows "ready A B s \<Longrightarrow> list_all (valid_iter A B) its \<Longrightarrow>
    for_each body its s = Inr (foldl accumulate s its)"
proof (induction its arbitrary: s)
  case Nil
  then show ?case by simp
next
  case (Cons it its)
  have "body s it = Inr (accumulate s it)"
    using assms Cons.prems by (intro body_valid [where A = A and B = B]) simp_all
  moreover have "for_each body its (accumulate s it) = Inr (foldl accumulate (accumulate s it) its)"
    using Cons.prems by (intro Cons.IH ready_accumulate) simp_all
  ultimately show ?case by simp
qed

lemma valid_row_task: "i < rows A \<Longrightarrow> list_all (valid_iter A B) (row_task A B i)"
  by (auto simp: row_task_def valid_iter_def list_all_iff)

lemma valid_chunk_task:
  assumes "start + n \<le> rows A"
  shows "list_all (valid_iter A B) (chunk_task A B start n)"
proof -
  have "list_all (valid_iter A B) (row_task A B i)" if "i \<in> set [start..<start + n]" for i
    using that assms by (intro valid_row_task) simp
  then show ?thesis
    by (simp add: chunk_task_def list_all_iff)
qed

subsection \<open>The nested loops run the iterations in lexicographic order\<close>

lemma for_each_body_operands:
  "for_each body its s = Inr s' \<Longrightarrow> this s' = this s \<and> other s' = other s"
proof (induction its arbitrary: s)
  case Nil
  then show ?case by simp
next
  case (Cons it its)
  then show ?case by (auto split: sum.splits dest!: body_Inr)
qed

lemma k_loop_flat:
  "for_each (\<lambda>s k. body s (i, j, k)) [0..<cols (this s)] s =
   for_each body (map (\<lambda>k. (i, j, k)) [0..<cols (this s)]) s"
  by (simp add: for_each_map)

lemma j_loop_flat:
  "for_each (\<lambda>s j. for_each (\<lambda>s k. body s (i, j, k)) [0..<cols (this s)] s)
     [0..<cols (other s)] s =
   for_each body (row_task (this s) (other s) i) s"
proof -
  define A where "A = this s"
  define B where "B = other s"
  let ?I = "\<lambda>s. this s = A \<and> other s = B"
  have "for_each (\<lambda>s j. for_each (\<lambda>s k. body s (i, j, k)) [0..<cols (this s)] s) [0..<cols B] s =
        for_each (\<lambda>s j. for_each body (map (\<lambda>k. (i, j, k)) [0..<cols A]) s) [0..<cols B] s"
  proof (rule for_each_cong_invariant [where I = ?I])
    show "?I s" by (simp add: A_def B_def)
  next
    fix s :: "'a frame" and x
    assume "?I s"
    then show "for_each (\<lambda>s k. body s (i, x, k)) [0..<cols (this s)] s =
      for_each body (map (\<lambda>k. (i, x, k)) [0..<cols A]) s"
      by (simp add: for_each_map)
  next
    fix s s' :: "'a frame" and x
    assume "?I s" "for_each body (map (\<lambda>k. (i, x, k)) [0..<cols A]) s = Inr s'"
    then show "?I s'" using for_each_body_operands by metis
  qed
  then show ?thesis
    by (simp add: row_task_def for_each_concat for_each_map A_def B_def)
qed

lemma serial_loops_flat:
  "serial_loops s = for_each body (chunk_task (this s) (other s) 0 (rows (this s))) s"
proof -
  define A where "A = this s"
  define B where "B = other s"
  let ?I = "\<lambda>s. this s = A \<and> other s = B"
  have "serial_loops s = for_each (\<lambda>s i. for_each body (row_task A B i) s) [0..<rows A] s"
    unfolding serial_loops_def A_def [symmetric]
  proof (rule for_each_cong_invariant [where I = ?I])
    show "?I s" by (simp add: A_def B_def)
  next
    fix s :: "'a frame" and x
    assume "?I s"
    then show "for_each (\<lambda>s j. for_each (\<lambda>s k. body s (x, j, k)) [0..<cols (this s)] s)
        [0..<cols (other s)] s = for_each body (row_task A B x) s"
      using j_loop_flat [of x s] by simp
  next
    fix s s' :: "'a frame" and x
    assume "?I s" "for_each body (row_task A B x) s = Inr s'"
    then show "?I s'" using for_each_body_operands by metis
  qed
  then show ?thesis
    by (simp add: chunk_task_def for_each_concat for_each_map A_def B_def)
qed

subsection \<open>The value of one element\<close>

lemma entry_accumulate:
  assumes "i < length (data (result s))" "j < length (data (result s) ! i)"
  shows "data (result (accumulate s (i', j', k))) ! i ! j =
    (if i' = i \<and> j' = j
     then data (result s) ! i ! j + data (this s) ! i ! k * data (other s) ! k ! j
     else data (result s) ! i ! j)"
proof (cases "i' = i")
  case True
  then show ?thesis using assms by (cases "j' = j") (simp_all add: accumulate_def)
next
  case False
  then show ?thesis by (simp add: accumulate_def)
qed

lemma entry_foldl:
  assumes "i < rows A" "j < cols B"
  shows "ready A B s \<Longrightarrow>
    data (result (foldl accumulate s its)) ! i ! j =
    foldl (+) (data (result s) ! i ! j)
      (map (\<lambda>(i', j', k). data A ! i ! k * data B ! k ! j)
        (filter (\<lambda>(i', j', k). i' = i \<and> j' = j) its))"
proof (induction its arbitrary: s)
  case Nil
  then show ?case by simp
next
  case (Cons it its)
  obtain i' j' k where it: "it = (i', j', k)" by (cases it) auto
  have r: "in_range (result s) i j"
    using Cons.prems assms by (intro wf_in_range) (simp_all add: ready_def)
  have ops: "this s = A" "other s = B" using Cons.prems by (simp_all add: ready_def)
  have "data (result (foldl accumulate (accumulate s it) its)) ! i ! j =
    foldl (+) (data (result (accumulate s it)) ! i ! j)
      (map (\<lambda>(i', j', k). data A ! i ! k * data B ! k ! j)
        (filter (\<lambda>(i', j', k). i' = i \<and> j' = j) its))"
    using Cons.prems by (intro Cons.IH ready_accumulate)
  moreover have "data (result (accumulate s it)) ! i ! j =
    (if i' = i \<and> j' = j
     then data (result s) ! i ! j + data A ! i ! k * data B ! k ! j
     else data (result s) ! i ! j)"
    using r entry_accumulate [of i s j i' j' k] by (simp add: in_range_def it ops)
  ultimately show ?case by (simp add: it)
qed

lemma concat_only_none:
  "x \<notin> set xs \<Longrightarrow> concat (map (\<lambda>y. if y = x then ys else []) xs) = []"
  by (induction xs) auto

lemma concat_only_one:
  "distinct xs \<Longrightarrow> x \<in> set xs \<Longrightarrow> concat (map (\<lambda>y. if y = x then ys else []) xs) = ys"
  by (induction xs) (auto simp: concat_only_none)

lemma filter_row_task:
  "filter (\<lambda>(i', j', k). i' = i \<and> j' = j) (row_task A B r) =
   (if r = i \<and> j < cols B then map (\<lambda>k. (i, j, k)) [0..<cols A] else [])"
proof -
  let ?P = "\<lambda>(i', j', k). i' = i \<and> j' = j"
  let ?ks = "map (\<lambda>k. (i, j, k)) [0..<cols A]"
  have inner: "filter ?P (map (\<lambda>k. (r, c, k)) [0..<cols A]) =
    (if c = j then (if r = i then ?ks else []) else [])" for c
    by (simp add: filter_map comp_def)
  have "filter ?P (row_task A B r) =
    concat (map (\<lambda>c. filter ?P (map (\<lambda>k. (r, c, k)) [0..<cols A])) [0..<cols B])"
    by (simp only: row_task_def filter_concat map_map comp_def)
  also have "\<dots> = concat (map (\<lambda>c. if c = j then (if r = i then ?ks else []) else []) [0..<cols B])"
    by (simp only: inner)
  also have "\<dots> = (if r = i \<and> j < cols B then ?ks else [])"
  proof (cases "j < cols B")
    case True
    then show ?thesis
      using concat_only_one [of "[0..<cols B]" j "if r = i then ?ks else []"] by simp
  next
    case False
    then show ?thesis
      using concat_only_none [of j "[0..<cols B]" "if r = i then ?ks else []"] by simp
  qed
  finally show ?thesis .
qed

lemma filter_chunk_task:
  assumes "start \<le> i" "i < start + n" "j < cols B"
  shows "filter (\<lambda>(i', j', k). i' = i \<and> j' = j) (chunk_task A B start n) =
    map (\<lambda>k. (i, j, k)) [0..<cols A]"
proof -
  let ?P = "\<lambda>(i', j', k). i' = i \<and> j' = j"
  let ?ks = "map (\<lambda>k. (i, j, k)) [0..<cols A]"
  have "filter ?P (chunk_task A B start n) =
    concat (map (\<lambda>r. filter ?P (row_task A B r)) [start..<start + n])"
    by (simp only: chunk_task_def filter_concat map_map comp_def)
  also have "\<dots> = concat (map (\<lambda>r. if r = i \<and> j < cols B then ?ks else []) [start..<start + n])"
    by (simp only: filter_row_task)
  also have "\<dots> = concat (map (\<lambda>r. if r = i then ?ks else []) [start..<start + n])"
    using assms(3) by simp
  also have "\<dots> = ?ks"
    using assms(1,2) by (intro concat_only_one) simp_all
  finally show ?thesis .
qed

lemma foldl_plus_sum:
  fixes f :: "nat \<Rightarrow> 'a::comm_monoid_add"
  shows "foldl (+) a (map f [0..<n]) = a + sum f {0..<n}"
  by (induction n) (simp_all add: add.assoc)

lemma entry_all_iters:
  fixes A B :: "('a::{zero,plus,times}) Matrix"
  assumes "i < rows A" "j < cols B"
  shows "data (result (foldl accumulate (fresh A B) (chunk_task A B 0 (rows A)))) ! i ! j =
    foldl (+) 0 (map (\<lambda>k. data A ! i ! k * data B ! k ! j) [0..<cols A])"
proof -
  have "data (result (foldl accumulate (fresh A B) (chunk_task A B 0 (rows A)))) ! i ! j =
    foldl (+) (data (result (fresh A B)) ! i ! j)
      (map (\<lambda>(i', j', k). data A ! i ! k * data B ! k ! j)
        (filter (\<lambda>(i', j', k). i' = i \<and> j' = j) (chunk_task A B 0 (rows A))))"
    using assms by (intro entry_foldl) simp_all
  moreover have "filter (\<lambda>(i', j', k). i' = i \<and> j' = j) (chunk_task A B 0 (rows A)) =
    map (\<lambda>k. (i, j, k)) [0..<cols A]"
    using assms by (intro filter_chunk_task) simp_all
  moreover have "data (result (fresh A B)) ! i ! j = 0"
    using assms by (simp add: fresh_def entry_Matrix_new)
  ultimately show ?thesis by (simp add: comp_def)
qed

lemma serial_run:
  fixes A B :: "('a::{zero,plus,times}) Matrix"
  assumes "wf_Matrix A" "wf_Matrix B" "cols A = rows B"
  shows "multiply_serial A B =
    (Inr (result (foldl accumulate (fresh A B) (chunk_task A B 0 (rows A)))), A, B)"
proof -
  have "serial_loops (fresh A B) = for_each body (chunk_task A B 0 (rows A)) (fresh A B)"
    using serial_loops_flat [of "fresh A B"] by (simp add: fresh_def)
  also have "\<dots> = Inr (foldl accumulate (fresh A B) (chunk_task A B 0 (rows A)))"
    using assms
    by (intro for_each_body_valid [where A = A and B = B] valid_chunk_task) simp_all
  finally have "serial_loops (fresh A B) =
    Inr (foldl accumulate (fresh A B) (chunk_task A B 0 (rows A)))" .
  moreover have "ready A B (foldl accumulate (fresh A B) (chunk_task A B 0 (rows A)))"
    by (intro ready_foldl) simp
  ultimately show ?thesis
    using assms(3) by (simp add: multiply_serial_def finish_def ready_def)
qed

subsection \<open>Iterations on different rows commute\<close>

lemma accumulate_commute:
  assumes "fst it \<noteq> fst it'"
  shows "accumulate (accumulate s it) it' = accumulate (accumulate s it') it"
proof -
  obtain i j k where it: "it = (i, j, k)" by (cases it) auto
  obtain i' j' k' where it': "it' = (i', j', k')" by (cases it') auto
  have ne: "i \<noteq> i'" using assms by (simp add: it it')
  then have ne': "i' \<noteq> i" by simp
  show ?thesis
    by (simp add: accumulate_def it it' nth_list_update_neq [OF ne] nth_list_update_neq [OF ne']
        list_update_swap [OF ne])
qed

lemma foldl_accumulate_commute:
  "\<forall>x\<in>set pre. fst x \<noteq> fst it \<Longrightarrow>
   foldl accumulate (accumulate s it) pre = accumulate (foldl accumulate s pre) it"
proof (induction pre arbitrary: s)
  case Nil
  then show ?case by simp
next
  case (Cons x pre)
  have "accumulate (accumulate s it) x = accumulate (accumulate s x) it"
    using Cons.prems by (intro accumulate_commute) simp
  then show ?case using Cons by simp
qed

lemma foldl_accumulate_hoist:
  assumes "\<forall>x\<in>set pre. fst x \<noteq> fst it"
  shows "foldl accumulate (accumulate s it) (pre @ post) = foldl accumulate s (pre @ it # post)"
  using assms by (simp add: foldl_accumulate_commute)

subsection \<open>One step of a schedule\<close>

lemma concat_nth_split:
  assumes "n < length ts"
  shows "concat ts = concat (take n ts) @ ts ! n @ concat (drop (Suc n) ts)"
proof -
  have "ts = take n ts @ ts ! n # drop (Suc n) ts"
    using assms by (rule id_take_nth_drop)
  then have "concat ts = concat (take n ts @ ts ! n # drop (Suc n) ts)" by simp
  then show ?thesis by simp
qed

lemma concat_update_split:
  assumes "n < length ts"
  shows "concat (ts[n := t]) = concat (take n ts) @ t @ concat (drop (Suc n) ts)"
  using assms by (simp add: upd_conv_take_nth_drop)

lemma disjoint_rows_before:
  assumes "disjoint_rows ts" "n < length ts" "ts ! n = it # rest"
  shows "\<forall>x\<in>set (concat (take n ts)). fst x \<noteq> fst it"
proof
  fix x assume "x \<in> set (concat (take n ts))"
  then obtain t where t: "t \<in> set (take n ts)" and x: "x \<in> set t" by auto
  from t obtain m where m: "m < n" "t = ts ! m"
    using assms(2) by (auto simp: in_set_conv_nth)
  have e: "fst ` set (ts ! m) \<inter> fst ` set (ts ! n) = {}"
    using assms(1,2) m(1) by (simp add: disjoint_rows_def)
  have a: "fst x \<in> fst ` set (ts ! m)" using x m(2) by (intro imageI) simp
  have b: "fst it \<in> fst ` set (ts ! n)" using assms(3) by (intro imageI) simp
  show "fst x \<noteq> fst it"
  proof
    assume "fst x = fst it"
    then have "fst it \<in> fst ` set (ts ! m) \<inter> fst ` set (ts ! n)"
      using a b by (intro IntI) simp_all
    then show False unfolding e by (rule emptyE)
  qed
qed

lemma disjoint_rows_update:
  assumes "disjoint_rows ts" "n < length ts" "set t \<subseteq> set (ts ! n)"
  shows "disjoint_rows (ts[n := t])"
  unfolding disjoint_rows_def
proof (intro allI impI)
  fix a b
  assume a: "a < length (ts[n := t])" and b: "b < length (ts[n := t])" and ab: "a \<noteq> b"
  have sub: "set (ts[n := t] ! c) \<subseteq> set (ts ! c)" if "c < length ts" for c
    using assms(3) that by (cases "c = n") simp_all
  have "fst ` set (ts ! a) \<inter> fst ` set (ts ! b) = {}"
    using assms(1) a b ab by (simp add: disjoint_rows_def)
  moreover have "set (ts[n := t] ! a) \<subseteq> set (ts ! a)" using sub a by simp
  moreover have "set (ts[n := t] ! b) \<subseteq> set (ts ! b)" using sub b by simp
  ultimately show "fst ` set (ts[n := t] ! a) \<inter> fst ` set (ts[n := t] ! b) = {}"
    by blast
qed

lemma step_sequential:
  assumes "disjoint_rows ts" "n < length ts" "ts ! n = it # rest"
  shows "foldl accumulate (accumulate s it) (concat (ts[n := rest])) =
    foldl accumulate s (concat ts)"
proof -
  let ?pre = "concat (take n ts)"
  let ?post = "concat (drop (Suc n) ts)"
  have "foldl accumulate (accumulate s it) (concat (ts[n := rest])) =
    foldl accumulate (accumulate s it) (?pre @ (rest @ ?post))"
    using assms(2) by (simp add: concat_update_split)
  also have "\<dots> = foldl accumulate s (?pre @ it # (rest @ ?post))"
    using disjoint_rows_before [OF assms] by (rule foldl_accumulate_hoist)
  also have "\<dots> = foldl accumulate s (concat ts)"
    using concat_nth_split [OF assms(2)] assms(3) by simp
  finally show ?thesis .
qed

subsection \<open>Reads and writes of different threads\<close>

lemma load_valid:
  assumes "wf_Matrix A" "wf_Matrix B" "cols A = rows B" "ready A B s" "valid_iter A B it"
  shows "\<exists>v. load s it = Some v"
proof -
  have "body s it = Inr (accumulate s it)" using assms by (rule body_valid)
  then show ?thesis by (cases "load s it") (simp_all add: body_load)
qed

lemma row_accumulate_other:
  "i' \<noteq> fst it \<Longrightarrow> data (result (accumulate s it)) ! i' = data (result s) ! i'"
  by (cases it) (simp add: accumulate_def)

lemma load_accumulate_other:
  assumes "fst it' \<noteq> fst it"
  shows "load (accumulate s it) it' = load s it'"
proof -
  obtain i' j' k' where it': "it' = (i', j', k')" by (cases it') auto
  have "data (result (accumulate s it)) ! i' = data (result s) ! i'"
    using assms by (intro row_accumulate_other) (simp add: it')
  then show ?thesis by (simp add: load_def it')
qed

lemma pending_ok_accumulate:
  assumes "pending_ok s t" "\<forall>x\<in>set (fst t). fst x \<noteq> fst it"
  shows "pending_ok (accumulate s it) t"
proof (cases "snd t")
  case None
  then show ?thesis by (simp add: pending_ok_def)
next
  case (Some v)
  then obtain x rest where t: "fst t = x # rest" and l: "load s x = Some v"
    using assms(1) by (auto simp: pending_ok_def split: list.splits)
  have "fst x \<noteq> fst it" using assms(2) t by simp
  then have "load (accumulate s it) x = load s x" by (rule load_accumulate_other)
  then show ?thesis using Some t l by (simp add: pending_ok_def)
qed

lemma disjoint_rows_other:
  assumes "disjoint_rows ts" "m < length ts" "n < length ts" "m \<noteq> n" "ts ! n = it # rest"
  shows "\<forall>x\<in>set (ts ! m). fst x \<noteq> fst it"
proof
  fix x assume x: "x \<in> set (ts ! m)"
  have e: "fst ` set (ts ! m) \<inter> fst ` set (ts ! n) = {}"
    using assms(1-4) by (simp add: disjoint_rows_def)
  have a: "fst x \<in> fst ` set (ts ! m)" using x by (rule imageI)
  have b: "fst it \<in> fst ` set (ts ! n)" using assms(5) by (intro imageI) simp
  show "fst x \<noteq> fst it"
  proof
    assume "fst x = fst it"
    then have "fst it \<in> fst ` set (ts ! m) \<inter> fst ` set (ts ! n)"
      using a b by (intro IntI) simp_all
    then show False unfolding e by (rule emptyE)
  qed
qed

subsection \<open>Executions under a schedule\<close>

lemma run_append:
  "run (xs @ ys) c =
    (case run xs c of None \<Rightarrow> None | Some (Inl e) \<Rightarrow> Some (Inl e) | Some (Inr c') \<Rightarrow> run ys c')"
  by (induction xs arbitrary: c) (auto split: option.splits sum.splits)

lemma finished_concat: "finished ts \<Longrightarrow> concat (map fst ts) = []"
  by (induction ts) (simp_all add: finished_def)

lemma sum_list_map_update:
  fixes f :: "'b \<Rightarrow> nat"
  shows "n < length xs \<Longrightarrow>
    sum_list (map f (xs[n := x])) + f (xs ! n) = sum_list (map f xs) + f x"
proof (induction xs arbitrary: n)
  case Nil
  then show ?case by simp
next
  case (Cons y ys)
  then show ?case by (cases n) auto
qed

lemma work_update:
  assumes "n < length ts" "Suc (steps_left t) = steps_left (ts ! n)"
  shows "Suc (work (ts[n := t])) = work ts"
  using sum_list_map_update [OF assms(1), of steps_left t] assms(2) by (simp add: work_def)

lemma work_0_finished:
  assumes "work ts = 0"
  shows "finished ts"
proof -
  have "fst t = []" if "t \<in> set ts" for t
  proof -
    have "steps_left t = 0" using assms that by (simp add: work_def)
    then show ?thesis by (cases "fst t") (auto simp: steps_left_def split: option.splits)
  qed
  then show ?thesis by (simp add: finished_def list_all_iff)
qed

lemma not_finished_nth:
  "\<not> finished ts \<Longrightarrow> \<exists>n it rest p. n < length ts \<and> ts ! n = (it # rest, p)"
proof -
  assume "\<not> finished ts"
  then obtain n where n: "n < length ts" "fst (ts ! n) \<noteq> []"
    by (auto simp: finished_def list_all_length)
  then obtain it rest where "fst (ts ! n) = it # rest" by (auto simp: neq_Nil_conv)
  then have "ts ! n = (it # rest, snd (ts ! n))" by (simp add: prod_eq_iff)
  then show ?thesis using n(1) by blast
qed

lemma list_all_update: "list_all P xs \<Longrightarrow> P x \<Longrightarrow> list_all P (xs[n := x])"
  using set_update_subset_insert [of xs n x] by (auto simp: list_all_iff)

lemma step_cases:
  assumes "step n (ts, s) = Some r"
  obtains it rest p where "n < length ts" "ts ! n = (it # rest, p)"
  using assms by (auto simp: step_def split: if_splits prod.splits list.splits)

lemma step_load_ok:
  fixes A B :: "('a::{plus,times}) Matrix"
  assumes wf: "wf_Matrix A" "wf_Matrix B" "cols A = rows B"
    and ok: "config_ok A B ts s" and n: "n < length ts" "ts ! n = (it # rest, None)"
  shows "\<exists>v. step n (ts, s) = Some (Inr (ts[n := (it # rest, Some v)], s)) \<and>
    config_ok A B (ts[n := (it # rest, Some v)]) s \<and>
    map fst (ts[n := (it # rest, Some v)]) = map fst ts \<and>
    Suc (work (ts[n := (it # rest, Some v)])) = work ts"
proof -
  have "list_all (valid_iter A B) (map fst ts ! n)"
    using ok n(1) by (simp add: config_ok_def list_all_length)
  then have v: "valid_iter A B it" using n by simp
  from load_valid [OF wf _ v] ok obtain v where l: "load s it = Some v"
    by (auto simp: config_ok_def)
  let ?ts = "ts[n := (it # rest, Some v)]"
  have st: "step n (ts, s) = Some (Inr (?ts, s))" using n l by (simp add: step_def)
  have fsts: "map fst ?ts = map fst ts"
    using n by (simp add: map_update list_update_same_conv)
  have "list_all (pending_ok s) ?ts"
    using ok n(1) l by (simp add: config_ok_def list_all_length nth_list_update pending_ok_def)
  then have c: "config_ok A B ?ts s" using ok fsts by (simp add: config_ok_def)
  have w: "Suc (work ?ts) = work ts"
    using n by (intro work_update) (simp_all add: steps_left_def)
  show ?thesis using st c fsts w by blast
qed

lemma step_store_ok:
  fixes A B :: "('a::{plus,times}) Matrix"
  assumes ok: "config_ok A B ts s" and n: "n < length ts" "ts ! n = (it # rest, Some v)"
  shows "step n (ts, s) = Some (Inr (ts[n := (rest, None)], accumulate s it))"
    and "config_ok A B (ts[n := (rest, None)]) (accumulate s it)"
    and "foldl accumulate (accumulate s it) (concat (map fst (ts[n := (rest, None)]))) =
      foldl accumulate s (concat (map fst ts))"
    and "Suc (work (ts[n := (rest, None)])) = work ts"
proof -
  let ?ts = "ts[n := (rest, None)]"
  have dis: "disjoint_rows (map fst ts)" and rdy: "ready A B s"
    and val: "list_all (list_all (valid_iter A B)) (map fst ts)"
    and pen: "list_all (pending_ok s) ts"
    using ok by (simp_all add: config_ok_def)
  have fn: "map fst ts ! n = it # rest" and ln: "n < length (map fst ts)" using n by simp_all
  have "pending_ok s (ts ! n)" using pen n(1) by (simp add: list_all_length)
  then have l: "load s it = Some v" using n(2) by (simp add: pending_ok_def)
  then have "store s it v = Some (accumulate s it)" by (rule load_store)
  then show "step n (ts, s) = Some (Inr (?ts, accumulate s it))"
    using n by (simp add: step_def)
  have fsts: "map fst ?ts = (map fst ts)[n := rest]" by (simp add: map_update)
  have d': "disjoint_rows (map fst ?ts)"
    unfolding fsts using dis ln fn by (intro disjoint_rows_update) auto
  have "list_all (valid_iter A B) (map fst ts ! n)"
    using val ln by (simp add: list_all_length)
  then have "list_all (valid_iter A B) rest" unfolding fn by simp
  then have v': "list_all (list_all (valid_iter A B)) (map fst ?ts)"
    unfolding fsts using val by (intro list_all_update)
  have "pending_ok (accumulate s it) (?ts ! m)" if m: "m < length ts" for m
  proof (cases "m = n")
    case True
    then show ?thesis using n(1) by (simp add: pending_ok_def)
  next
    case False
    have "\<forall>x\<in>set (map fst ts ! m). fst x \<noteq> fst it"
      using dis m ln False fn by (intro disjoint_rows_other [where n = n and rest = rest]) simp_all
    then have "\<forall>x\<in>set (fst (ts ! m)). fst x \<noteq> fst it" using m by simp
    moreover have "pending_ok s (ts ! m)" using pen m by (simp add: list_all_length)
    ultimately have "pending_ok (accumulate s it) (ts ! m)" by (rule pending_ok_accumulate [rotated])
    then show ?thesis using False by simp
  qed
  then have p': "list_all (pending_ok (accumulate s it)) ?ts"
    by (simp add: list_all_length)
  show "config_ok A B ?ts (accumulate s it)"
    using d' v' p' rdy by (simp add: config_ok_def ready_accumulate)
  show "foldl accumulate (accumulate s it) (concat (map fst ?ts)) =
      foldl accumulate s (concat (map fst ts))"
    unfolding fsts using dis ln fn by (rule step_sequential)
  show "Suc (work ?ts) = work ts"
    using n by (intro work_update) (simp_all add: steps_left_def)
qed

lemma step_ok:
  fixes A B :: "('a::{plus,times}) Matrix"
  assumes wf: "wf_Matrix A" "wf_Matrix B" "cols A = rows B"
    and ok: "config_ok A B ts s" and n: "n < length ts" "ts ! n = (it # rest, p)"
  shows "\<exists>ts' s'. step n (ts, s) = Some (Inr (ts', s')) \<and> config_ok A B ts' s' \<and>
    foldl accumulate s' (concat (map fst ts')) = foldl accumulate s (concat (map fst ts)) \<and>
    Suc (work ts') = work ts"
proof (cases p)
  case None
  from step_load_ok [OF wf ok n(1)] n(2) None obtain v where
    "step n (ts, s) = Some (Inr (ts[n := (it # rest, Some v)], s))"
    "config_ok A B (ts[n := (it # rest, Some v)]) s"
    "map fst (ts[n := (it # rest, Some v)]) = map fst ts"
    "Suc (work (ts[n := (it # rest, Some v)])) = work ts"
    by blast
  then show ?thesis by (intro exI [of _ "ts[n := (it # rest, Some v)]"] exI [of _ s]) simp
next
  case (Some v)
  then have n2: "ts ! n = (it # rest, Some v)" using n(2) by simp
  show ?thesis
    using step_store_ok [OF ok n(1) n2]
    by (intro exI [of _ "ts[n := (rest, None)]"] exI [of _ "accumulate s it"]) simp
qed

lemma run_ok:
  fixes A B :: "('a::{plus,times}) Matrix"
  assumes wf: "wf_Matrix A" "wf_Matrix B" "cols A = rows B"
  shows "config_ok A B ts s \<Longrightarrow> run sched (ts, s) = Some r \<Longrightarrow>
    \<exists>ts' s'. r = Inr (ts', s') \<and> config_ok A B ts' s' \<and>
      foldl accumulate s' (concat (map fst ts')) = foldl accumulate s (concat (map fst ts)) \<and>
      length sched + work ts' = work ts"
proof (induction sched arbitrary: ts s)
  case Nil
  then show ?case by auto
next
  case (Cons n sched)
  from Cons.prems(2) obtain r0 where r0: "step n (ts, s) = Some r0"
    by (auto split: option.splits)
  then obtain it rest p where n: "n < length ts" "ts ! n = (it # rest, p)"
    by (rule step_cases)
  from step_ok [OF wf Cons.prems(1) n] obtain ts1 s1 where
    st: "step n (ts, s) = Some (Inr (ts1, s1))" and ok: "config_ok A B ts1 s1"
    and f1: "foldl accumulate s1 (concat (map fst ts1)) = foldl accumulate s (concat (map fst ts))"
    and w1: "Suc (work ts1) = work ts"
    by blast
  have "run sched (ts1, s1) = Some r" using Cons.prems(2) st by simp
  from Cons.IH [OF ok this] obtain ts' s' where r: "r = Inr (ts', s')" "config_ok A B ts' s'"
    and f: "foldl accumulate s' (concat (map fst ts')) = foldl accumulate s1 (concat (map fst ts1))"
    and l: "length sched + work ts' = work ts1"
    by blast
  show ?case using r f l f1 w1 by simp
qed

lemma run_finish_exists:
  fixes A B :: "('a::{plus,times}) Matrix"
  assumes wf: "wf_Matrix A" "wf_Matrix B" "cols A = rows B"
  shows "work ts = l \<Longrightarrow> config_ok A B ts s \<Longrightarrow>
    \<exists>sched ts' s'. run sched (ts, s) = Some (Inr (ts', s')) \<and> finished ts'"
proof (induction l arbitrary: ts s)
  case 0
  then have "finished ts" by (intro work_0_finished)
  then have "run [] (ts, s) = Some (Inr (ts, s)) \<and> finished ts" by simp
  then show ?case by blast
next
  case (Suc l)
  have "\<not> finished ts"
  proof
    assume "finished ts"
    then have "steps_left t = 0" if "t \<in> set ts" for t
      using that by (simp add: finished_def list_all_iff steps_left_def)
    then have "work ts = 0" by (simp add: work_def)
    then show False using Suc.prems(1) by simp
  qed
  then obtain n it rest p where n: "n < length ts" "ts ! n = (it # rest, p)"
    using not_finished_nth by blast
  from step_ok [OF wf Suc.prems(2) n] obtain ts1 s1 where
    st: "step n (ts, s) = Some (Inr (ts1, s1))" and ok: "config_ok A B ts1 s1"
    and w1: "Suc (work ts1) = work ts"
    by blast
  have "work ts1 = l" using Suc.prems(1) w1 by simp
  from Suc.IH [OF this ok] obtain sched ts' s'
    where "run sched (ts1, s1) = Some (Inr (ts', s'))" "finished ts'" by blast
  then have "run (n # sched) (ts, s) = Some (Inr (ts', s')) \<and> finished ts'"
    using st by simp
  then show ?case by blast
qed

lemma join_all_result:
  fixes A B :: "('a::{plus,times}) Matrix"
  assumes wf: "wf_Matrix A" "wf_Matrix B" "cols A = rows B"
    and ok: "config_ok A B ts s" and j: "join_all sched (ts, s) = Some r"
  shows "r = Inr (foldl accumulate s (concat (map fst ts))) \<and> length sched = work ts"
proof -
  from j obtain r0 where r0: "run sched (ts, s) = Some r0"
    by (auto simp: join_all_def split: option.splits)
  from run_ok [OF wf ok r0] obtain ts' s' where r: "r0 = Inr (ts', s')"
    and f: "foldl accumulate s' (concat (map fst ts')) = foldl accumulate s (concat (map fst ts))"
    and l: "length sched + work ts' = work ts"
    by blast
  have fin: "finished ts'" and rs: "r = Inr s'"
    using j r0 r by (auto simp: join_all_def finished_def split: if_splits)
  have "steps_left t = 0" if "t \<in> set ts'" for t
    using that fin by (simp add: finished_def list_all_iff steps_left_def)
  then have "work ts' = 0" by (simp add: work_def)
  then show ?thesis using f rs l finished_concat [OF fin] by simp
qed

lemma join_all_extend:
  fixes A B :: "('a::{plus,times}) Matrix"
  assumes wf: "wf_Matrix A" "wf_Matrix B" "cols A = rows B"
    and ok: "config_ok A B ts s" and r: "run sched (ts, s) = Some c"
  shows "\<exists>more. join_all (sched @ more) (ts, s) =
    Some (Inr (foldl accumulate s (concat (map fst ts))))"
proof -
  from run_ok [OF wf ok r] obtain ts1 s1 where c: "c = Inr (ts1, s1)"
    and ok1: "config_ok A B ts1 s1" by blast
  from run_finish_exists [OF wf refl ok1] obtain more ts' s'
    where m: "run more (ts1, s1) = Some (Inr (ts', s'))" and fin: "finished ts'" by blast
  have "run (sched @ more) (ts, s) = Some (Inr (ts', s'))"
    using r c m by (simp add: run_append)
  then have j: "join_all (sched @ more) (ts, s) = Some (Inr s')"
    using fin by (simp add: join_all_def finished_def)
  from join_all_result [OF wf ok j] show ?thesis using j by auto
qed

subsection \<open>The partition of the rows\<close>

lemma chunk_start_0 [simp]: "chunk_start c r 0 = 0"
  by (simp add: chunk_start_def)

lemma chunk_start_Suc:
  "chunk_start c r (Suc t) = chunk_start c r t + chunk_rows c r t"
  by (simp add: chunk_start_def chunk_rows_def min_def)

lemma chunk_start_mono: "a \<le> b \<Longrightarrow> chunk_start c r a \<le> chunk_start c r b"
  by (induction b) (auto simp: chunk_start_Suc le_Suc_eq)

lemma chunk_start_total:
  assumes "0 < P"
  shows "chunk_start (R div P) (R mod P) P = R"
proof -
  have "R mod P < P" using assms by simp
  then have "min P (R mod P) = R mod P" by simp
  then show ?thesis by (simp add: chunk_start_def)
qed

lemma chunk_end_le:
  assumes "t < P"
  shows "chunk_start c r t + chunk_rows c r t \<le> chunk_start c r P"
proof -
  have "chunk_start c r (Suc t) \<le> chunk_start c r P"
    using assms by (intro chunk_start_mono) simp
  then show ?thesis by (simp add: chunk_start_Suc)
qed

lemma spawn_loop:
  "foldl (\<lambda>(start, threads) t.
       (start + (c + (if t < r then 1 else 0)),
        threads @ [(start, c + (if t < r then 1 else 0))]))
     (0, []) [0..<n] =
   (chunk_start c r n, map (\<lambda>t. (chunk_start c r t, chunk_rows c r t)) [0..<n])"
  by (induction n) (simp_all add: chunk_start_Suc chunk_rows_def)

lemma partition_rows_closed:
  "0 < P \<Longrightarrow> partition_rows R P =
    Inr (map (\<lambda>t. (chunk_start (R div P) (R mod P) t, chunk_rows (R div P) (R mod P) t)) [0..<P])"
  by (simp add: partition_rows_def Let_def spawn_loop)

lemma ranges_concat:
  "concat (map (\<lambda>t. [chunk_start c r t..<chunk_start c r t + chunk_rows c r t]) [0..<n]) =
   [0..<chunk_start c r n]"
proof (induction n)
  case 0
  then show ?case by simp
next
  case (Suc n)
  have "[0..<chunk_start c r n + chunk_rows c r n] =
    [0..<chunk_start c r n] @ [chunk_start c r n..<chunk_start c r n + chunk_rows c r n]"
    by (rule upt_add_eq_append) simp
  then show ?case using Suc by (simp add: chunk_start_Suc)
qed

lemma ranges_disjoint:
  assumes "a \<noteq> b"
  shows "{chunk_start c r a..<chunk_start c r a + chunk_rows c r a} \<inter>
    {chunk_start c r b..<chunk_start c r b + chunk_rows c r b} = {}"
proof -
  have lt: "{chunk_start c r x..<chunk_start c r x + chunk_rows c r x} \<inter>
    {chunk_start c r y..<chunk_start c r y + chunk_rows c r y} = {}" if "x < y" for x y
  proof -
    have "chunk_start c r (Suc x) \<le> chunk_start c r y"
      using that by (intro chunk_start_mono) simp
    then have "chunk_start c r x + chunk_rows c r x \<le> chunk_start c r y"
      by (simp add: chunk_start_Suc)
    then show ?thesis by auto
  qed
  show ?thesis
  proof (cases "a < b")
    case True
    then show ?thesis by (rule lt)
  next
    case False
    then have "b < a" using assms by simp
    then show ?thesis using lt [of b a] by (simp add: Int_commute)
  qed
qed

subsection \<open>The launched units of execution\<close>

lemma rows_row_task: "fst ` set (row_task A B i) \<subseteq> {i}"
  by (auto simp: row_task_def)

lemma rows_chunk_task: "fst ` set (chunk_task A B start n) \<subseteq> {start..<start + n}"
  using rows_row_task [of A B] by (fastforce simp: chunk_task_def)

lemma fst_launch [simp]: "fst (launch its) = its"
  by (simp add: launch_def)

lemma pending_ok_launch [simp]: "pending_ok s (launch its)"
  by (simp add: launch_def pending_ok_def)

lemma fsts_async_tasks: "map fst (async_tasks A B) = map (row_task A B) [0..<rows A]"
  by (simp add: async_tasks_def comp_def)

lemma concat_async_tasks: "concat (map fst (async_tasks A B)) = chunk_task A B 0 (rows A)"
  by (simp add: fsts_async_tasks chunk_task_def)

lemma async_config_ok: "config_ok A B (async_tasks A B) (fresh A B)"
proof -
  have "fst ` set (row_task A B a) \<inter> fst ` set (row_task A B b) = {}" if "a \<noteq> b" for a b
    using rows_row_task [of A B a] rows_row_task [of A B b] that by blast
  then have "disjoint_rows (map fst (async_tasks A B))"
    by (simp add: disjoint_rows_def fsts_async_tasks)
  moreover have "list_all (valid_iter A B) (row_task A B i)" if "i < rows A" for i
    using that by (rule valid_row_task)
  then have "list_all (list_all (valid_iter A B)) (map fst (async_tasks A B))"
    by (simp add: fsts_async_tasks list_all_iff)
  moreover have "list_all (pending_ok (fresh A B)) (async_tasks A B)"
    by (simp add: async_tasks_def list_all_iff)
  ultimately show ?thesis by (simp add: config_ok_def)
qed

lemma pool_tasks_closed:
  assumes "0 < P" "partition_rows (rows A) P = Inr parts"
  shows "pool_tasks A B parts =
    map (\<lambda>t. launch (chunk_task A B (chunk_start (rows A div P) (rows A mod P) t)
                (chunk_rows (rows A div P) (rows A mod P) t))) [0..<P]"
  using assms by (auto simp: partition_rows_closed pool_tasks_def)

lemma concat_map_concat:
  "concat (map (\<lambda>x. concat (map g (f x))) xs) = concat (map g (concat (map f xs)))"
  by (induction xs) simp_all

lemma concat_pool_tasks:
  assumes "0 < P" "partition_rows (rows A) P = Inr parts"
  shows "concat (map fst (pool_tasks A B parts)) = chunk_task A B 0 (rows A)"
proof -
  let ?c = "rows A div P" and ?r = "rows A mod P"
  have "concat (map fst (pool_tasks A B parts)) =
    concat (map (row_task A B)
      (concat (map (\<lambda>t. [chunk_start ?c ?r t..<chunk_start ?c ?r t + chunk_rows ?c ?r t]) [0..<P])))"
    by (simp add: pool_tasks_closed [OF assms] chunk_task_def concat_map_concat comp_def)
  also have "\<dots> = concat (map (row_task A B) [0..<chunk_start ?c ?r P])"
    by (simp only: ranges_concat)
  also have "\<dots> = chunk_task A B 0 (rows A)"
    using assms(1) by (simp add: chunk_start_total chunk_task_def)
  finally show ?thesis .
qed

lemma pool_config_ok:
  assumes "0 < P" "partition_rows (rows A) P = Inr parts"
  shows "config_ok A B (pool_tasks A B parts) (fresh A B)"
proof -
  let ?c = "rows A div P" and ?r = "rows A mod P"
  let ?task = "\<lambda>t. chunk_task A B (chunk_start ?c ?r t) (chunk_rows ?c ?r t)"
  have ts: "pool_tasks A B parts = map (\<lambda>t. launch (?task t)) [0..<P]"
    by (rule pool_tasks_closed [OF assms])
  then have fsts: "map fst (pool_tasks A B parts) = map ?task [0..<P]"
    by (simp add: comp_def)
  have "fst ` set (?task a) \<inter> fst ` set (?task b) = {}" if "a \<noteq> b" for a b
    using rows_chunk_task [of A B "chunk_start ?c ?r a" "chunk_rows ?c ?r a"]
      rows_chunk_task [of A B "chunk_start ?c ?r b" "chunk_rows ?c ?r b"]
      ranges_disjoint [OF that, of ?c ?r]
    by blast
  then have "disjoint_rows (map fst (pool_tasks A B parts))"
    by (simp add: fsts disjoint_rows_def)
  moreover have "list_all (valid_iter A B) (?task t)" if "t < P" for t
  proof -
    have "chunk_start ?c ?r t + chunk_rows ?c ?r t \<le> chunk_start ?c ?r P"
      using that by (rule chunk_end_le)
    then have "chunk_start ?c ?r t + chunk_rows ?c ?r t \<le> rows A"
      using assms(1) by (simp add: chunk_start_total)
    then show ?thesis by (rule valid_chunk_task)
  qed
  then have "list_all (list_all (valid_iter A B)) (map fst (pool_tasks A B parts))"
    by (simp add: fsts list_all_iff)
  moreover have "list_all (pending_ok (fresh A B)) (pool_tasks A B parts)"
    by (simp add: ts list_all_iff)
  ultimately show ?thesis by (simp add: config_ok_def)
qed

subsection \<open>The concurrent multipliers return what the serial one returns\<close>

lemma finish_ready:
  "ready A B s \<Longrightarrow> finish (Inr s) = (Inr (result s), A, B)"
  by (simp add: finish_def ready_def)

lemma multiply_async_unfold:
  "cols A = rows B \<Longrightarrow>
   multiply_async sched A B = map_option finish (join_all sched (async_tasks A B, fresh A B))"
  by (simp add: multiply_async_def)

lemma multiply_thread_pool_unfold:
  "cols A = rows B \<Longrightarrow> 0 < P \<Longrightarrow> partition_rows (rows A) P = Inr parts \<Longrightarrow>
   multiply_thread_pool P sched A B =
     map_option finish (join_all sched (pool_tasks A B parts, fresh A B))"
  by (simp add: multiply_thread_pool_def)

lemma finish_sequential:
  fixes A B :: "('a::{zero,plus,times}) Matrix"
  assumes "wf_Matrix A" "wf_Matrix B" "cols A = rows B"
  shows "finish (Inr (foldl accumulate (fresh A B) (chunk_task A B 0 (rows A)))) =
    multiply_serial A B"
proof -
  have "ready A B (foldl accumulate (fresh A B) (chunk_task A B 0 (rows A)))"
    by (intro ready_foldl) simp
  then show ?thesis using assms by (simp add: finish_ready serial_run)
qed

lemma async_agrees:
  fixes A B :: "('a::{zero,plus,times}) Matrix"
  assumes wf: "wf_Matrix A" "wf_Matrix B" "cols A = rows B"
    and r: "multiply_async sched A B = Some r"
  shows "r = multiply_serial A B"
proof -
  from r obtain r0 where j: "join_all sched (async_tasks A B, fresh A B) = Some r0"
    and f: "r = finish r0"
    using wf(3) by (auto simp: multiply_async_unfold)
  have "r0 = Inr (foldl accumulate (fresh A B) (concat (map fst (async_tasks A B))))"
    using join_all_result [OF wf async_config_ok j] by simp
  then show ?thesis using f finish_sequential [OF wf] by (simp add: concat_async_tasks)
qed

lemma async_extend:
  fixes A B :: "('a::{zero,plus,times}) Matrix"
  assumes wf: "wf_Matrix A" "wf_Matrix B" "cols A = rows B"
    and r: "run sched (async_tasks A B, fresh A B) = Some c"
  shows "\<exists>more. multiply_async (sched @ more) A B = Some (multiply_serial A B)"
proof -
  from join_all_extend [OF wf async_config_ok r] obtain more where
    "join_all (sched @ more) (async_tasks A B, fresh A B) =
      Some (Inr (foldl accumulate (fresh A B) (concat (map fst (async_tasks A B)))))" ..
  then have "multiply_async (sched @ more) A B = Some (multiply_serial A B)"
    using wf(3) finish_sequential [OF wf]
    by (simp add: multiply_async_unfold concat_async_tasks)
  then show ?thesis ..
qed

lemma pool_agrees:
  fixes A B :: "('a::{zero,plus,times}) Matrix"
  assumes wf: "wf_Matrix A" "wf_Matrix B" "cols A = rows B" and P: "0 < P"
    and r: "multiply_thread_pool P sched A B = Some r"
  shows "r = multiply_serial A B"
proof -
  obtain parts where parts: "partition_rows (rows A) P = Inr parts"
    using P by (simp add: partition_rows_closed)
  from r obtain r0 where j: "join_all sched (pool_tasks A B parts, fresh A B) = Some r0"
    and f: "r = finish r0"
    using wf(3) P parts by (auto simp: multiply_thread_pool_unfold)
  have "r0 = Inr (foldl accumulate (fresh A B) (concat (map fst (pool_tasks A B parts))))"
    using join_all_result [OF wf pool_config_ok [OF P parts] j] by simp
  then show ?thesis
    using f finish_sequential [OF wf] by (simp add: concat_pool_tasks [OF P parts])
qed

lemma pool_extend:
  fixes A B :: "('a::{zero,plus,times}) Matrix"
  assumes wf: "wf_Matrix A" "wf_Matrix B" "cols A = rows B" and P: "0 < P"
    and parts: "partition_rows (rows A) P = Inr parts"
    and r: "run sched (pool_tasks A B parts, fresh A B) = Some c"
  shows "\<exists>more. multiply_thread_pool P (sched @ more) A B = Some (multiply_serial A B)"
proof -
  from join_all_extend [OF wf pool_config_ok [OF P parts] r] obtain more where
    "join_all (sched @ more) (pool_tasks A B parts, fresh A B) =
      Some (Inr (foldl accumulate (fresh A B) (concat (map fst (pool_tasks A B parts)))))" ..
  then have "multiply_thread_pool P (sched @ more) A B = Some (multiply_serial A B)"
    using wf(3) finish_sequential [OF wf]
    by (simp add: multiply_thread_pool_unfold [OF wf(3) P parts] concat_pool_tasks [OF P parts])
  then show ?thesis ..
qed

subsection \<open>The operands are never written\<close>

lemma for_each_body_fault_operands:
  "for_each body its s = Inl (e, s') \<Longrightarrow> this s' = this s \<and> other s' = other s"
proof (induction its arbitrary: s)
  case Nil
  then show ?case by simp
next
  case (Cons it its)
  show ?case
  proof (cases "body s it")
    case (Inl f)
    then show ?thesis using Cons.prems body_Inl [of s it e s'] by (cases f) simp
  next
    case (Inr s1)
    then have "for_each body its s1 = Inl (e, s')" using Cons.prems by simp
    then have "this s' = this s1 \<and> other s' = other s1" by (rule Cons.IH)
    then show ?thesis using body_Inr [OF Inr] by simp
  qed
qed

lemma finish_for_each_body:
  "snd (finish (for_each body its s)) = (this s, other s)"
proof (cases "for_each body its s")
  case (Inl f)
  obtain e s' where f: "f = (e, s')" by (cases f)
  show ?thesis using for_each_body_fault_operands [of its s e s'] Inl f
    by (simp add: finish_def)
next
  case (Inr s')
  then show ?thesis using for_each_body_operands [of its s s'] by (simp add: finish_def)
qed

lemma serial_operands: "snd (multiply_serial A B) = (A, B)"
  by (simp add: multiply_serial_def serial_loops_flat finish_for_each_body fresh_def)

lemma store_operands:
  "store s it v = Some s' \<Longrightarrow> this s' = this s \<and> other s' = other s"
  by (auto simp: store_def split: prod.splits if_splits)

lemma step_operands:
  assumes "step n (ts, s) = Some r"
  shows "case r of Inl (e, s') \<Rightarrow> this s' = this s \<and> other s' = other s
    | Inr (ts', s') \<Rightarrow> this s' = this s \<and> other s' = other s"
proof -
  from assms obtain it rest p where n: "n < length ts" "ts ! n = (it # rest, p)"
    by (rule step_cases)
  show ?thesis
  proof (cases p)
    case None
    then show ?thesis using assms n by (auto simp: step_def split: option.splits)
  next
    case (Some v)
    then show ?thesis
      using assms n store_operands [of s it v]
      by (auto simp: step_def split: option.splits)
  qed
qed

lemma run_operands:
  "run sched (ts, s) = Some r \<Longrightarrow>
    (case r of Inl (e, s') \<Rightarrow> this s' = this s \<and> other s' = other s
      | Inr (ts', s') \<Rightarrow> this s' = this s \<and> other s' = other s)"
proof (induction sched arbitrary: ts s)
  case Nil
  then show ?case by auto
next
  case (Cons n sched)
  from Cons.prems obtain r0 where r0: "step n (ts, s) = Some r0"
    by (auto split: option.splits)
  show ?case
  proof (cases r0)
    case (Inl f)
    then have "r = r0" using Cons.prems r0 by simp
    then show ?thesis using step_operands [OF r0] by simp
  next
    case (Inr c)
    obtain ts1 s1 where c: "c = (ts1, s1)" by (cases c)
    have s1: "this s1 = this s \<and> other s1 = other s"
      using step_operands [OF r0] Inr c by simp
    have "run sched (ts1, s1) = Some r" using Cons.prems r0 Inr c by simp
    from Cons.IH [OF this] show ?thesis using s1 by (auto split: sum.splits)
  qed
qed

lemma join_all_operands:
  assumes "map_option finish (join_all sched (ts, s)) = Some r"
  shows "snd r = (this s, other s)"
proof -
  from assms obtain r0 where j: "join_all sched (ts, s) = Some r0" and r: "r = finish r0"
    by auto
  from j obtain r1 where r1: "run sched (ts, s) = Some r1"
    by (auto simp: join_all_def split: option.splits)
  show ?thesis
  proof (cases r1)
    case (Inl f)
    obtain e s' where f: "f = (e, s')" by (cases f)
    have "r0 = Inl (e, s')" using j r1 Inl f by (simp add: join_all_def)
    then show ?thesis using run_operands [OF r1] Inl f r by (simp add: finish_def)
  next
    case (Inr c)
    obtain ts' s' where c: "c = (ts', s')" by (cases c)
    have "r0 = Inr s'" using j r1 Inr c by (simp add: join_all_def split: if_splits)
    then show ?thesis using run_operands [OF r1] Inr c r by (simp add: finish_def)
  qed
qed

lemma async_operands: "multiply_async sched A B = Some r \<Longrightarrow> snd r = (A, B)"
  using join_all_operands [of sched "async_tasks A B" "fresh A B" r]
  by (auto simp: multiply_async_def throw_early_def fresh_def split: if_splits)

lemma pool_operands: "multiply_thread_pool hc sched A B = Some r \<Longrightarrow> snd r = (A, B)"
proof (cases "cols A \<noteq> rows B")
  case True
  assume "multiply_thread_pool hc sched A B = Some r"
  then show ?thesis using True
    by (auto simp: multiply_thread_pool_def throw_early_def split: if_splits)
next
  case False
  assume r: "multiply_thread_pool hc sched A B = Some r"
  show ?thesis
  proof (cases "partition_rows (rows A) hc")
    case (Inl e)
    then show ?thesis using r False
      by (auto simp: multiply_thread_pool_def throw_early_def split: if_splits)
  next
    case (Inr parts)
    then show ?thesis
      using r False join_all_operands [of sched "pool_tasks A B parts" "fresh A B" r]
      by (simp add: multiply_thread_pool_def fresh_def)
  qed
qed

subsection \<open>Empty contraction and identity\<close>

lemma row_task_no_columns: "cols A = 0 \<Longrightarrow> row_task A B i = []"
  by (simp add: row_task_def)

lemma chunk_task_no_columns: "cols A = 0 \<Longrightarrow> chunk_task A B start n = []"
  by (simp add: chunk_task_def row_task_no_columns)

lemma chunk_task_no_rows [simp]: "chunk_task A B start 0 = []"
  by (simp add: chunk_task_def)

lemma wf_Matrix_eqI:
  assumes "wf_Matrix M" "wf_Matrix N" "rows M = rows N" "cols M = cols N"
    and "\<And>i j. i < rows N \<Longrightarrow> j < cols N \<Longrightarrow> data M ! i ! j = data N ! i ! j"
  shows "M = N"
proof -
  have len: "length (data M) = length (data N)"
    using assms(1-3) by (simp add: wf_Matrix_def)
  have "data M ! i = data N ! i" if "i < length (data N)" for i
  proof -
    have i: "i < rows N" using that assms(2) by (simp add: wf_Matrix_def)
    have "length (data M ! i) = cols N" "length (data N ! i) = cols N"
      using assms(1-4) i by (simp_all add: wf_Matrix_def list_all_length)
    then show ?thesis using assms(5) [OF i] by (simp add: list_eq_iff_nth_eq)
  qed
  then have "data M = data N" using len by (simp add: list_eq_iff_nth_eq)
  then show ?thesis using assms(3,4) by simp
qed

lemma serial_zero_size:
  "multiply_serial (Matrix_new R 0) (Matrix_new 0 C) =
    (Inr (Matrix_new R C), Matrix_new R 0, Matrix_new 0 C :: ('a::{zero,plus,times}) Matrix)"
proof -
  let ?A = "Matrix_new R 0 :: 'a Matrix" and ?B = "Matrix_new 0 C :: 'a Matrix"
  have "multiply_serial ?A ?B =
    (Inr (result (foldl accumulate (fresh ?A ?B) (chunk_task ?A ?B 0 (rows ?A)))), ?A, ?B)"
    by (rule serial_run) simp_all
  then show ?thesis by (simp add: chunk_task_no_columns fresh_def)
qed

lemma sum_pick:
  fixes f :: "nat \<Rightarrow> 'a::semiring_1"
  assumes "j < K"
  shows "(\<Sum>k = 0..<K. f k * (if k = j then 1 else 0)) = f j"
proof -
  have "(\<Sum>k = 0..<K. f k * (if k = j then 1 else 0)) =
    (\<Sum>k\<in>{0..<K}. if k = j then f k else 0)"
    by (intro sum.cong) simp_all
  also have "\<dots> = f j" using assms by simp
  finally show ?thesis .
qed

subsection \<open>Launches that always complete\<close>

lemma async_runs:
  fixes A B :: "('a::{zero,plus,times}) Matrix"
  assumes "wf_Matrix A" "wf_Matrix B" "cols A = rows B"
  shows "\<exists>sched. multiply_async sched A B = Some (multiply_serial A B)"
  using async_extend [OF assms, of "[]"] by simp

lemma pool_runs:
  fixes A B :: "('a::{zero,plus,times}) Matrix"
  assumes "wf_Matrix A" "wf_Matrix B" "cols A = rows B" "0 < P"
  shows "\<exists>sched. multiply_thread_pool P sched A B = Some (multiply_serial A B)"
proof -
  obtain parts where parts: "partition_rows (rows A) P = Inr parts"
    using assms(4) by (simp add: partition_rows_closed)
  show ?thesis using pool_extend [OF assms parts, of "[]"] by simp
qed

lemma count_not_less: "length (filter (\<lambda>t. \<not> t < R) [0..<P]) = P - R"
  by (induction P) auto

lemma wf_identity_Matrix [simp]: "wf_Matrix (identity_Matrix n)"
  by (simp add: wf_Matrix_def identity_Matrix_def list_all_iff)

lemma rows_identity_Matrix [simp]: "rows (identity_Matrix n) = n"
  by (simp add: identity_Matrix_def)

lemma cols_identity_Matrix [simp]: "cols (identity_Matrix n) = n"
  by (simp add: identity_Matrix_def)

lemma entry_identity_Matrix:
  "i < n \<Longrightarrow> j < n \<Longrightarrow> data (identity_Matrix n) ! i ! j = (if i = j then 1 else 0)"
  by (simp add: identity_Matrix_def)

lemma serial_identity:
  fixes A :: "('a::semiring_1) Matrix"
  assumes "wf_Matrix A"
  shows "multiply_serial A (identity_Matrix (cols A)) = (Inr A, A, identity_Matrix (cols A))"
proof -
  let ?I = "identity_Matrix (cols A) :: 'a Matrix"
  let ?s = "foldl accumulate (fresh A ?I) (chunk_task A ?I 0 (rows A))"
  have run: "multiply_serial A ?I = (Inr (result ?s), A, ?I)"
    using assms by (intro serial_run) simp_all
  have rdy: "ready A ?I ?s" by (intro ready_foldl) simp
  have "data (result ?s) ! i ! j = data A ! i ! j" if "i < rows A" "j < cols A" for i j
  proof -
    have "data (result ?s) ! i ! j =
      (\<Sum>k = 0..<cols A. data A ! i ! k * data ?I ! k ! j)"
      using that by (simp add: entry_all_iters foldl_plus_sum)
    also have "\<dots> = (\<Sum>k = 0..<cols A. data A ! i ! k * (if k = j then 1 else 0))"
      using that(2) by (intro sum.cong) (simp_all add: entry_identity_Matrix)
    also have "\<dots> = data A ! i ! j" using that(2) by (rule sum_pick)
    finally show ?thesis .
  qed
  then have "result ?s = A"
    using rdy assms by (intro wf_Matrix_eqI) (simp_all add: ready_def)
  then show ?thesis using run by simp
qed

subsection \<open>Launches with nothing to run\<close>

lemma step_finished: "finished ts \<Longrightarrow> step n (ts, s) = None"
  by (auto simp: step_def finished_def list_all_length split: prod.splits list.splits)

lemma join_all_finished:
  "finished ts \<Longrightarrow> join_all sched (ts, s) = (if sched = [] then Some (Inr s) else None)"
  by (cases sched) (simp_all add: join_all_def step_finished finished_def)

lemma finished_async_tasks: "cols A = 0 \<Longrightarrow> finished (async_tasks A B)"
  by (simp add: finished_def async_tasks_def list_all_iff row_task_no_columns)

lemma finished_pool_tasks: "cols A = 0 \<Longrightarrow> finished (pool_tasks A B parts)"
  by (auto simp: finished_def pool_tasks_def list_all_iff chunk_task_no_columns)

lemma async_zero_size:
  "multiply_async sched (Matrix_new R 0) (Matrix_new 0 C) =
    (if sched = [] then Some (Inr (Matrix_new R C), Matrix_new R 0, Matrix_new 0 C) else None)"
  by (simp add: multiply_async_unfold join_all_finished finished_async_tasks finish_def fresh_def)

lemma pool_zero_size:
  assumes "0 < P"
  shows "multiply_thread_pool P sched (Matrix_new R 0) (Matrix_new 0 C) =
    (if sched = [] then
       Some (Inr (Matrix_new R C), Matrix_new R 0, Matrix_new 0 C :: ('a::{zero,plus,times}) Matrix)
     else None)"
proof -
  let ?A = "Matrix_new R 0 :: 'a Matrix" and ?B = "Matrix_new 0 C :: 'a Matrix"
  obtain parts where parts: "partition_rows (rows ?A) P = Inr parts"
    using assms by (simp add: partition_rows_closed)
  have dims: "cols ?A = rows ?B" by simp
  have "multiply_thread_pool P sched ?A ?B =
    map_option finish (join_all sched (pool_tasks ?A ?B parts, fresh ?A ?B))"
    using dims assms parts by (rule multiply_thread_pool_unfold)
  then show ?thesis
    by (simp add: join_all_finished finished_pool_tasks finish_def fresh_def)
qed

subsection \<open>A unit of execution with no iteration takes no step\<close>

lemma step_idle:
  assumes "t < length ts \<longrightarrow> fst (ts ! t) = []" "step n (ts, s) = Some (Inr (ts', s'))"
  shows "n \<noteq> t \<and> (t < length ts' \<longrightarrow> fst (ts' ! t) = [])"
proof -
  from assms(2) obtain it rest p where n: "n < length ts" "ts ! n = (it # rest, p)"
    by (rule step_cases)
  have nt: "n \<noteq> t" using assms(1) n by auto
  have "\<exists>x. ts' = ts[n := x]"
    using assms(2) n by (cases p) (auto simp: step_def split: option.splits)
  then have "length ts' = length ts \<and> ts' ! t = ts ! t"
    using nt by auto
  then show ?thesis using assms(1) nt by simp
qed

lemma run_idle:
  "t < length ts \<longrightarrow> fst (ts ! t) = [] \<Longrightarrow> run sched (ts, s) = Some (Inr c) \<Longrightarrow>
    t \<notin> set sched"
proof (induction sched arbitrary: ts s)
  case Nil
  then show ?case by simp
next
  case (Cons n sched)
  from Cons.prems(2) obtain ts1 s1 where st: "step n (ts, s) = Some (Inr (ts1, s1))"
    and r: "run sched (ts1, s1) = Some (Inr c)"
    by (auto split: option.splits sum.splits)
  from step_idle [OF Cons.prems(1) st] have nt: "n \<noteq> t"
    and idle: "t < length ts1 \<longrightarrow> fst (ts1 ! t) = []" by simp_all
  from Cons.IH [OF idle r] nt show ?case by simp
qed

lemma join_all_idle:
  assumes "t < length ts \<longrightarrow> fst (ts ! t) = []" "join_all sched (ts, s) = Some (Inr s')"
  shows "t \<notin> set sched"
proof -
  from assms(2) obtain c where "run sched (ts, s) = Some (Inr c)"
    by (auto simp: join_all_def split: option.splits sum.splits)
  with assms(1) show ?thesis by (rule run_idle)
qed

lemma pool_idle:
  fixes A B :: "('a::{zero,plus,times}) Matrix"
  assumes wf: "wf_Matrix A" "wf_Matrix B" "cols A = rows B" and P: "rows A < P"
    and r: "multiply_thread_pool P sched A B = Some r" and t: "rows A \<le> t"
  shows "t \<notin> set sched"
proof -
  have P0: "0 < P" using P by simp
  obtain parts where parts: "partition_rows (rows A) P = Inr parts"
    using P0 by (simp add: partition_rows_closed)
  have ts: "pool_tasks A B parts =
    map (\<lambda>t. launch (chunk_task A B (chunk_start (rows A div P) (rows A mod P) t)
                (chunk_rows (rows A div P) (rows A mod P) t))) [0..<P]"
    using P0 parts by (rule pool_tasks_closed)
  have idle: "t < length (pool_tasks A B parts) \<longrightarrow> fst (pool_tasks A B parts ! t) = []"
    using P t by (simp add: ts chunk_rows_def)
  from r obtain r0 where j: "join_all sched (pool_tasks A B parts, fresh A B) = Some r0"
    using wf(3) P0 parts by (auto simp: multiply_thread_pool_unfold)
  have "r0 = Inr (foldl accumulate (fresh A B) (concat (map fst (pool_tasks A B parts))))"
    using join_all_result [OF wf pool_config_ok [OF P0 parts] j] by simp
  with j idle show ?thesis using join_all_idle by blast
qed

section \<open>The properties of the specification\<close>

text \<open>
  C1. For matrices \<open>A\<close> (R\<times>K) and \<open>B\<close> (K\<times>C) with \<open>A.cols() = B.rows()\<close>,
  \<open>multiply_serial\<close> returns a new R\<times>C matrix whose element \<open>(i, j)\<close> is the sum over
  \<open>k\<close> from 0 to K-1 of \<open>A[i][k] * B[k][j]\<close>, computed by three nested loops in row, then
  column, then contraction order: the result is the fresh matrix after the iterations
  \<open>(i, j, k)\<close> in lexicographic order, and each element is the sum accumulated from \<open>0\<close>
  in the order \<open>k = 0, \<dots>, K-1\<close> with the \<open>+\<close> and \<open>*\<close> of the element type. No law
  of arithmetic is assumed of the element type, so this holds where addition rounds, as
  it does for \<open>double\<close>.
\<close>

theorem multiply_serial_product:
  fixes A B :: "('a::{zero,plus,times}) Matrix"
  assumes "wf_Matrix A" "wf_Matrix B" "cols A = rows B"
  shows "\<exists>M. fst (multiply_serial A B) = Inr M \<and> wf_Matrix M \<and>
    rows M = rows A \<and> cols M = cols B \<and>
    M = result (foldl accumulate (fresh A B)
          (concat (map (\<lambda>i. concat (map (\<lambda>j. map (\<lambda>k. (i, j, k)) [0..<cols A]) [0..<cols B]))
             [0..<rows A]))) \<and>
    (\<forall>i<rows A. \<forall>j<cols B.
       data M ! i ! j =
         foldl (+) 0 (map (\<lambda>k. data A ! i ! k * data B ! k ! j) [0..<cols A]))"
proof -
  let ?s = "foldl accumulate (fresh A B) (chunk_task A B 0 (rows A))"
  have run: "fst (multiply_serial A B) = Inr (result ?s)"
    using assms by (simp add: serial_run)
  have rdy: "ready A B ?s" by (intro ready_foldl) simp
  have its: "chunk_task A B 0 (rows A) =
    concat (map (\<lambda>i. concat (map (\<lambda>j. map (\<lambda>k. (i, j, k)) [0..<cols A]) [0..<cols B])) [0..<rows A])"
    by (simp add: chunk_task_def row_task_def [abs_def])
  have "data (result ?s) ! i ! j =
      foldl (+) 0 (map (\<lambda>k. data A ! i ! k * data B ! k ! j) [0..<cols A])"
    if "i < rows A" "j < cols B" for i j
    using that by (rule entry_all_iters)
  then show ?thesis using run rdy its by (simp add: ready_def)
qed

theorem multiply_serial_product_witness:
  "wf_Matrix rising \<and> wf_Matrix ones \<and> cols rising = rows ones \<and>
   fst (multiply_serial rising ones) = Inr \<lparr>data = [[Coarse 10]], rows = 1, cols = 1\<rparr> \<and>
   fst (multiply_serial falling ones) = Inr \<lparr>data = [[Coarse 8]], rows = 1, cols = 1\<rparr> \<and>
   fst (multiply_serial sample_A sample_B) = Inr sample_AB \<and>
   (\<exists>M. fst (multiply_serial rising ones) = Inr M \<and> wf_Matrix M \<and>
      rows M = rows rising \<and> cols M = cols ones \<and>
      M = result (foldl accumulate (fresh rising ones)
            (concat (map (\<lambda>i. concat (map (\<lambda>j. map (\<lambda>k. (i, j, k)) [0..<cols rising])
               [0..<cols ones])) [0..<rows rising]))) \<and>
      (\<forall>i<rows rising. \<forall>j<cols ones.
         data M ! i ! j =
           foldl (+) 0 (map (\<lambda>k. data rising ! i ! k * data ones ! k ! j) [0..<cols rising])))"
proof -
  have h1: "wf_Matrix rising" by code_simp
  have h2: "wf_Matrix ones" by code_simp
  have h3: "cols rising = rows ones" by code_simp
  have v1: "fst (multiply_serial rising ones) = Inr \<lparr>data = [[Coarse 10]], rows = 1, cols = 1\<rparr>"
    by code_simp
  have v2: "fst (multiply_serial falling ones) = Inr \<lparr>data = [[Coarse 8]], rows = 1, cols = 1\<rparr>"
    by code_simp
  have v3: "fst (multiply_serial sample_A sample_B) = Inr sample_AB" by code_simp
  show ?thesis
    by (intro conjI h1 h2 h3 v1 v2 v3 multiply_serial_product [OF h1 h2 h3])
qed

text \<open>
  C3. For every \<open>R \<ge> 0\<close> and \<open>P \<ge> 1\<close> the partitioning of the thread-pool multiplier
  (\<open>chunk = R / P\<close>, \<open>remainder = R % P\<close>, the first \<open>remainder\<close> partitions one row
  longer) yields exactly \<open>P\<close> contiguous ranges in increasing row order whose union is
  \<open>[0, R)\<close>, pairwise disjoint, with sizes that differ by at most 1, the first \<open>R mod P\<close>
  of them the larger ones.
\<close>

theorem partition_rows_cover:
  assumes "1 \<le> P"
  shows "\<exists>parts. partition_rows R P = Inr parts \<and> length parts = P \<and>
    concat (map (\<lambda>(start, thread_rows). [start..<start + thread_rows]) parts) = [0..<R] \<and>
    (\<Union>(start, thread_rows)\<in>set parts. {start..<start + thread_rows}) = {0..<R} \<and>
    (\<forall>a<P. \<forall>b<P. a \<noteq> b \<longrightarrow>
       {fst (parts ! a)..<fst (parts ! a) + snd (parts ! a)} \<inter>
       {fst (parts ! b)..<fst (parts ! b) + snd (parts ! b)} = {}) \<and>
    (\<forall>a<P. \<forall>b<P. snd (parts ! a) \<le> snd (parts ! b) + 1) \<and>
    (\<forall>t<P. snd (parts ! t) = (if t < R mod P then R div P + 1 else R div P))"
proof -
  let ?c = "R div P" and ?r = "R mod P"
  let ?parts = "map (\<lambda>t. (chunk_start ?c ?r t, chunk_rows ?c ?r t)) [0..<P]"
  have P: "0 < P" using assms by simp
  have p: "partition_rows R P = Inr ?parts" using P by (rule partition_rows_closed)
  have cat: "concat (map (\<lambda>(start, thread_rows). [start..<start + thread_rows]) ?parts) = [0..<R]"
    using ranges_concat [of ?c ?r P] P by (simp add: comp_def chunk_start_total)
  have "set (concat (map (\<lambda>(start, thread_rows). [start..<start + thread_rows]) ?parts)) =
    (\<Union>(start, thread_rows)\<in>set ?parts. {start..<start + thread_rows})"
    by (simp add: split_def)
  then have un: "(\<Union>(start, thread_rows)\<in>set ?parts. {start..<start + thread_rows}) = {0..<R}"
    by (simp only: cat set_upt)
  have dis: "{fst (?parts ! a)..<fst (?parts ! a) + snd (?parts ! a)} \<inter>
      {fst (?parts ! b)..<fst (?parts ! b) + snd (?parts ! b)} = {}"
    if "a < P" "b < P" "a \<noteq> b" for a b
    using that ranges_disjoint [of a b ?c ?r] by simp
  have sz: "snd (?parts ! a) \<le> snd (?parts ! b) + 1" if "a < P" "b < P" for a b
    using that by (simp add: chunk_rows_def)
  have big: "snd (?parts ! t) = (if t < R mod P then R div P + 1 else R div P)" if "t < P" for t
    using that by (simp add: chunk_rows_def)
  show ?thesis
    using p cat un dis sz big by (intro exI [of _ ?parts]) (simp del: set_map set_upt)
qed

theorem partition_rows_cover_witness:
  "(1::nat) \<le> 4 \<and> partition_rows 10 4 = Inr [(0, 3), (3, 3), (6, 2), (8, 2)] \<and>
   (\<exists>parts. partition_rows 10 4 = Inr parts \<and> length parts = 4 \<and>
      concat (map (\<lambda>(start, thread_rows). [start..<start + thread_rows]) parts) = [0..<10] \<and>
      (\<Union>(start, thread_rows)\<in>set parts. {start..<start + thread_rows}) = {0..<10} \<and>
      (\<forall>a<4. \<forall>b<4. a \<noteq> b \<longrightarrow>
         {fst (parts ! a)..<fst (parts ! a) + snd (parts ! a)} \<inter>
         {fst (parts ! b)..<fst (parts ! b) + snd (parts ! b)} = {}) \<and>
      (\<forall>a<4. \<forall>b<4. snd (parts ! a) \<le> snd (parts ! b) + 1) \<and>
      (\<forall>t<4. snd (parts ! t) = (if t < 10 mod 4 then 10 div 4 + 1 else 10 div 4)))"
proof -
  have h: "(1::nat) \<le> 4" by simp
  have v: "partition_rows 10 4 = Inr [(0, 3), (3, 3), (6, 2), (8, 2)]" by code_simp
  show ?thesis
    by (intro conjI h v partition_rows_cover [OF h])
qed

text \<open>
  C4. For operands with \<open>A.cols() \<noteq> B.rows()\<close> each of the three multipliers signals the
  dimension error (\<open>std::invalid_argument\<close>): the call returns no matrix, the concurrent
  multipliers raise it before they launch anything (the empty schedule is their only
  execution, so no unit of execution ever takes a step), and no element is written.
\<close>

theorem dimension_mismatch_fails_fast:
  assumes "cols A \<noteq> rows B"
  shows "multiply_serial A B = (Inl DimensionMismatch, A, B) \<and>
    multiply_async sched A B =
      (if sched = [] then Some (Inl DimensionMismatch, A, B) else None) \<and>
    multiply_thread_pool hardware_concurrency sched A B =
      (if sched = [] then Some (Inl DimensionMismatch, A, B) else None)"
  using assms
  by (simp add: multiply_serial_def multiply_async_def multiply_thread_pool_def throw_early_def)

theorem dimension_mismatch_fails_fast_witness:
  "cols (Matrix_new 2 1 :: int Matrix) \<noteq> rows (Matrix_new 0 3 :: int Matrix) \<and>
   multiply_serial (Matrix_new 2 1 :: int Matrix) (Matrix_new 0 3) =
     (Inl DimensionMismatch, Matrix_new 2 1, Matrix_new 0 3) \<and>
   multiply_async [] (Matrix_new 2 1 :: int Matrix) (Matrix_new 0 3) =
     Some (Inl DimensionMismatch, Matrix_new 2 1, Matrix_new 0 3) \<and>
   multiply_async [0] (Matrix_new 2 1 :: int Matrix) (Matrix_new 0 3) = None \<and>
   multiply_thread_pool 0 [] (Matrix_new 2 1 :: int Matrix) (Matrix_new 0 3) =
     Some (Inl DimensionMismatch, Matrix_new 2 1, Matrix_new 0 3) \<and>
   multiply_thread_pool 4 [0] (Matrix_new 2 1 :: int Matrix) (Matrix_new 0 3) = None"
proof -
  let ?A = "Matrix_new 2 1 :: int Matrix" and ?B = "Matrix_new 0 3 :: int Matrix"
  have h: "cols ?A \<noteq> rows ?B" by simp
  show ?thesis
    using h dimension_mismatch_fails_fast [OF h, of "[]" 0]
      dimension_mismatch_fails_fast [OF h, of "[0]" 4]
    by simp
qed

text \<open>
  C7. When the matrix has fewer rows than the thread-pool multiplier has threads
  (\<open>R < P\<close>), the first \<open>R\<close> partitions hold one row each and exactly \<open>P - R\<close> partitions
  hold none; the units of execution of those have no iteration to run, so they are
  finished when launched and take no step, hence write no element, in any execution. The
  call neither deadlocks nor fails: every execution that has started can be continued to
  the join, and every execution returns what the serial multiplier returns, which is a
  matrix.
\<close>

theorem fewer_rows_than_threads:
  fixes A B :: "('a::{zero,plus,times}) Matrix"
  assumes "wf_Matrix A" "wf_Matrix B" "cols A = rows B" "rows A < P"
  shows "\<exists>parts. partition_rows (rows A) P = Inr parts \<and> length parts = P \<and>
    (\<forall>t<P. parts ! t = (if t < rows A then (t, 1) else (rows A, 0))) \<and>
    length (filter (\<lambda>(start, thread_rows). thread_rows = 0) parts) = P - rows A \<and>
    (\<forall>t<P. rows A \<le> t \<longrightarrow> pool_tasks A B parts ! t = ([], None)) \<and>
    (\<forall>sched r t. multiply_thread_pool P sched A B = Some r \<longrightarrow> rows A \<le> t \<longrightarrow>
       t \<notin> set sched) \<and>
    (\<forall>sched r. multiply_thread_pool P sched A B = Some r \<longrightarrow> r = multiply_serial A B) \<and>
    (\<forall>sched c. run sched (pool_tasks A B parts, fresh A B) = Some c \<longrightarrow>
       (\<exists>more. multiply_thread_pool P (sched @ more) A B = Some (multiply_serial A B))) \<and>
    (\<exists>M. fst (multiply_serial A B) = Inr M)"
proof -
  let ?R = "rows A"
  let ?parts = "map (\<lambda>t. (chunk_start 0 ?R t, chunk_rows 0 ?R t)) [0..<P]"
  have P: "0 < P" using assms(4) by simp
  have p: "partition_rows ?R P = Inr ?parts"
    using assms(4) partition_rows_closed [OF P, of ?R] by simp
  have nth: "?parts ! t = (if t < ?R then (t, 1) else (?R, 0))" if "t < P" for t
    using that by (simp add: chunk_start_def chunk_rows_def)
  have "filter (\<lambda>(start, thread_rows). thread_rows = 0) ?parts =
    map (\<lambda>t. (chunk_start 0 ?R t, chunk_rows 0 ?R t)) (filter (\<lambda>t. \<not> t < ?R) [0..<P])"
    by (simp add: filter_map comp_def chunk_rows_def)
  then have cnt: "length (filter (\<lambda>(start, thread_rows). thread_rows = 0) ?parts) = P - ?R"
    by (simp add: count_not_less)
  have idle: "pool_tasks A B ?parts ! t = ([], None)" if "t < P" "?R \<le> t" for t
    using that by (simp add: pool_tasks_def chunk_rows_def launch_def)
  have still: "t \<notin> set sched"
    if "multiply_thread_pool P sched A B = Some r" "?R \<le> t" for sched r t
    using assms that by (rule pool_idle)
  have agree: "r = multiply_serial A B" if "multiply_thread_pool P sched A B = Some r" for sched r
    using assms(1-3) P that by (rule pool_agrees)
  have live: "\<exists>more. multiply_thread_pool P (sched @ more) A B = Some (multiply_serial A B)"
    if "run sched (pool_tasks A B ?parts, fresh A B) = Some c" for sched c
    using assms(1-3) P p that by (rule pool_extend)
  have ret: "\<exists>M. fst (multiply_serial A B) = Inr M"
    using assms(1-3) by (simp add: serial_run)
  show ?thesis
    using p nth cnt idle still agree live ret by (intro exI [of _ ?parts]) (simp del: map_map)
qed

theorem fewer_rows_than_threads_witness:
  "wf_Matrix sample_A \<and> wf_Matrix sample_B \<and> cols sample_A = rows sample_B \<and>
   rows sample_A < 3 \<and>
   partition_rows (rows sample_A) 3 = Inr [(0, 1), (1, 1), (2, 0)] \<and>
   multiply_thread_pool 3 [1, 0, 0, 1, 1, 0, 0, 1, 0, 1, 1, 0, 1, 0, 0, 1] sample_A sample_B =
     Some (Inr sample_AB, sample_A, sample_B) \<and>
   (\<exists>parts. partition_rows (rows sample_A) 3 = Inr parts \<and> length parts = 3 \<and>
      (\<forall>t<3. parts ! t = (if t < rows sample_A then (t, 1) else (rows sample_A, 0))) \<and>
      length (filter (\<lambda>(start, thread_rows). thread_rows = 0) parts) = 3 - rows sample_A \<and>
      (\<forall>t<3. rows sample_A \<le> t \<longrightarrow> pool_tasks sample_A sample_B parts ! t = ([], None)) \<and>
      (\<forall>sched r t. multiply_thread_pool 3 sched sample_A sample_B = Some r \<longrightarrow>
         rows sample_A \<le> t \<longrightarrow> t \<notin> set sched) \<and>
      (\<forall>sched r. multiply_thread_pool 3 sched sample_A sample_B = Some r \<longrightarrow>
         r = multiply_serial sample_A sample_B) \<and>
      (\<forall>sched c. run sched (pool_tasks sample_A sample_B parts, fresh sample_A sample_B) = Some c \<longrightarrow>
         (\<exists>more. multiply_thread_pool 3 (sched @ more) sample_A sample_B =
            Some (multiply_serial sample_A sample_B))) \<and>
      (\<exists>M. fst (multiply_serial sample_A sample_B) = Inr M))"
proof -
  have h1: "wf_Matrix sample_A" by code_simp
  have h2: "wf_Matrix sample_B" by code_simp
  have h3: "cols sample_A = rows sample_B" by code_simp
  have h4: "rows sample_A < 3" by code_simp
  have v1: "partition_rows (rows sample_A) 3 = Inr [(0, 1), (1, 1), (2, 0)]" by code_simp
  have v2: "multiply_thread_pool 3 [1, 0, 0, 1, 1, 0, 0, 1, 0, 1, 1, 0, 1, 0, 0, 1] sample_A sample_B =
     Some (Inr sample_AB, sample_A, sample_B)" by code_simp
  show ?thesis
    by (intro conjI h1 h2 h3 h4 v1 v2 fewer_rows_than_threads [OF h1 h2 h3 h4])
qed

text \<open>
  C9. Every multiplication leaves both operands as they were: whatever the schedule and
  the hardware concurrency, and whether the call returns a matrix or fails, \<open>*this\<close> and
  \<open>other\<close> hold after the call the dimensions and the elements they held before it.
\<close>

theorem operands_unchanged:
  "snd (multiply_serial A B) = (A, B) \<and>
   (\<forall>r. multiply_async sched A B = Some r \<longrightarrow> snd r = (A, B)) \<and>
   (\<forall>r. multiply_thread_pool hardware_concurrency sched A B = Some r \<longrightarrow> snd r = (A, B))"
  using serial_operands [of A B] async_operands [of sched A B]
    pool_operands [of hardware_concurrency sched A B]
  by blast

theorem operands_unchanged_witness:
  "multiply_async [1, 0, 0, 1, 1, 0, 0, 1, 0, 1, 1, 0, 1, 0, 0, 1] sample_A sample_B =
     Some (Inr sample_AB, sample_A, sample_B) \<and>
   multiply_thread_pool 3 [1, 0, 0, 1, 1, 0, 0, 1, 0, 1, 1, 0, 1, 0, 0, 1] sample_A sample_B =
     Some (Inr sample_AB, sample_A, sample_B) \<and>
   snd (multiply_serial sample_A sample_B) = (sample_A, sample_B) \<and>
   snd (Inr sample_AB :: error + int Matrix, sample_A, sample_B) = (sample_A, sample_B)"
proof -
  have v1: "multiply_async [1, 0, 0, 1, 1, 0, 0, 1, 0, 1, 1, 0, 1, 0, 0, 1] sample_A sample_B =
     Some (Inr sample_AB, sample_A, sample_B)" by code_simp
  have v2: "multiply_thread_pool 3 [1, 0, 0, 1, 1, 0, 0, 1, 0, 1, 1, 0, 1, 0, 0, 1] sample_A sample_B =
     Some (Inr sample_AB, sample_A, sample_B)" by code_simp
  show ?thesis
    using v1 v2 operands_unchanged [of sample_A sample_B "[1, 0, 0, 1, 1, 0, 0, 1, 0, 1, 1, 0, 1, 0, 0, 1]" 3]
    by blast
qed

text \<open>
  C5. The claim: the degree of parallelism of the thread-pool multiplier is always
  positive, falling back to 1 when the platform reports a hardware concurrency of 0. The
  code has no fallback: \<open>num_threads\<close> is the reported value itself (line 99), and with 0
  the partition sizing of lines 103 and 104 divides by zero, for every row count. On the
  sample operands the call ends in that fault before any thread is launched.
\<close>

theorem thread_pool_zero_concurrency:
  "partition_rows nrows 0 = Inl DivisionByZero \<and>
   multiply_thread_pool 0 sched sample_A sample_B =
     (if sched = [] then Some (Inl DivisionByZero, sample_A, sample_B) else None)"
proof -
  have "cols sample_A = rows sample_B" by code_simp
  then show ?thesis
    by (simp add: partition_rows_def multiply_thread_pool_def throw_early_def)
qed

text \<open>
  C2. The claim: on operands that satisfy the dimension precondition the three
  multipliers return element-wise equal results. With a hardware concurrency of 0 the
  serial and the task-based multiplier return the product of the sample operands and the
  thread-pool multiplier returns nothing: it ends in the division fault of C5.
\<close>

theorem agreement_zero_concurrency:
  "multiply_serial sample_A sample_B = (Inr sample_AB, sample_A, sample_B) \<and>
   multiply_async [0, 1, 1, 0, 0, 1, 1, 0, 1, 0, 0, 1, 0, 1, 1, 0] sample_A sample_B =
     Some (Inr sample_AB, sample_A, sample_B) \<and>
   multiply_thread_pool 0 [] sample_A sample_B =
     Some (Inl DivisionByZero, sample_A, sample_B)"
  by code_simp

text \<open>
  C6. The claim: an R\<times>0 matrix times a 0\<times>C matrix gives, without error, the R\<times>C
  matrix of zeros with each of the three multipliers. With a hardware concurrency of 0
  the serial and the task-based multiplier do so for the 2\<times>0 and 0\<times>3 operands and the
  thread-pool multiplier ends in the division fault of C5.
\<close>

theorem zero_size_zero_concurrency:
  "multiply_serial (Matrix_new 2 0 :: int Matrix) (Matrix_new 0 3) =
     (Inr (Matrix_new 2 3), Matrix_new 2 0, Matrix_new 0 3) \<and>
   multiply_async [] (Matrix_new 2 0 :: int Matrix) (Matrix_new 0 3) =
     Some (Inr (Matrix_new 2 3), Matrix_new 2 0, Matrix_new 0 3) \<and>
   multiply_thread_pool 0 [] (Matrix_new 2 0 :: int Matrix) (Matrix_new 0 3) =
     Some (Inl DivisionByZero, Matrix_new 2 0, Matrix_new 0 3)"
  by code_simp

text \<open>
  C8. The claim: a matrix times the identity matrix is the matrix itself, with each of the
  three multipliers. With a hardware concurrency of 0 the serial and the task-based
  multiplier return the sample matrix and the thread-pool multiplier ends in the division
  fault of C5.
\<close>

theorem identity_zero_concurrency:
  "multiply_serial sample_A (identity_Matrix 2) = (Inr sample_A, sample_A, identity_Matrix 2) \<and>
   multiply_async [1, 1, 0, 0, 1, 0, 1, 0, 0, 1, 0, 1, 1, 1, 0, 0] sample_A (identity_Matrix 2) =
     Some (Inr sample_A, sample_A, identity_Matrix 2) \<and>
   multiply_thread_pool 0 [] sample_A (identity_Matrix 2) =
     Some (Inl DivisionByZero, sample_A, identity_Matrix 2)"
  by code_simp

section \<open>The concurrent multipliers on a platform that reports its concurrency\<close>

text \<open>
  With operands that satisfy the dimension precondition and a hardware concurrency of at
  least 1, every execution of the task-based and of the thread-pool multiplier, whatever
  the schedule, returns exactly what the serial multiplier returns (the same element
  values, not only values within a tolerance: each element is accumulated by one unit of
  execution in the order of the serial loop); both have an execution, and the serial
  multiplier returns a matrix.
\<close>

theorem concurrent_multipliers_agree:
  fixes A B :: "('a::{zero,plus,times}) Matrix"
  assumes "wf_Matrix A" "wf_Matrix B" "cols A = rows B" "0 < hardware_concurrency"
  shows "(\<forall>sched r. multiply_async sched A B = Some r \<longrightarrow> r = multiply_serial A B) \<and>
    (\<forall>sched r. multiply_thread_pool hardware_concurrency sched A B = Some r \<longrightarrow>
       r = multiply_serial A B) \<and>
    (\<exists>sched. multiply_async sched A B = Some (multiply_serial A B)) \<and>
    (\<exists>sched. multiply_thread_pool hardware_concurrency sched A B = Some (multiply_serial A B)) \<and>
    (\<exists>M. fst (multiply_serial A B) = Inr M)"
proof -
  have "r = multiply_serial A B" if "multiply_async sched A B = Some r" for sched r
    using assms(1-3) that by (rule async_agrees)
  moreover have "r = multiply_serial A B"
    if "multiply_thread_pool hardware_concurrency sched A B = Some r" for sched r
    using assms that by (rule pool_agrees)
  moreover have "\<exists>sched. multiply_async sched A B = Some (multiply_serial A B)"
    using assms(1-3) by (rule async_runs)
  moreover have
    "\<exists>sched. multiply_thread_pool hardware_concurrency sched A B = Some (multiply_serial A B)"
    using assms by (rule pool_runs)
  moreover have "\<exists>M. fst (multiply_serial A B) = Inr M"
    using assms(1-3) by (simp add: serial_run)
  ultimately show ?thesis by blast
qed

theorem concurrent_multipliers_agree_witness:
  "wf_Matrix sample_A \<and> wf_Matrix sample_B \<and> cols sample_A = rows sample_B \<and> (0::nat) < 2 \<and>
   multiply_async [0, 1, 1, 0, 0, 1, 1, 0, 1, 0, 0, 1, 0, 1, 1, 0] sample_A sample_B = Some (multiply_serial sample_A sample_B) \<and>
   multiply_thread_pool 2 [1, 1, 0, 1, 0, 0, 0, 1, 0, 0, 1, 0, 1, 1, 1, 0] sample_A sample_B =
     Some (multiply_serial sample_A sample_B) \<and>
   (\<exists>sched. multiply_async sched sample_A sample_B = Some (multiply_serial sample_A sample_B)) \<and>
   (\<exists>sched. multiply_thread_pool 2 sched sample_A sample_B =
      Some (multiply_serial sample_A sample_B)) \<and>
   (\<exists>M. fst (multiply_serial sample_A sample_B) = Inr M)"
proof -
  have h1: "wf_Matrix sample_A" by code_simp
  have h2: "wf_Matrix sample_B" by code_simp
  have h3: "cols sample_A = rows sample_B" by code_simp
  have h4: "(0::nat) < 2" by simp
  have v1: "multiply_async [0, 1, 1, 0, 0, 1, 1, 0, 1, 0, 0, 1, 0, 1, 1, 0] sample_A sample_B =
    Some (Inr sample_AB, sample_A, sample_B)" by code_simp
  have v2: "multiply_thread_pool 2 [1, 1, 0, 1, 0, 0, 0, 1, 0, 0, 1, 0, 1, 1, 1, 0] sample_A sample_B =
    Some (Inr sample_AB, sample_A, sample_B)" by code_simp
  note th = concurrent_multipliers_agree [OF h1 h2 h3 h4]
  have a1: "multiply_async [0, 1, 1, 0, 0, 1, 1, 0, 1, 0, 0, 1, 0, 1, 1, 0] sample_A sample_B =
    Some (multiply_serial sample_A sample_B)" using th v1 by metis
  have a2: "multiply_thread_pool 2 [1, 1, 0, 1, 0, 0, 0, 1, 0, 0, 1, 0, 1, 1, 1, 0] sample_A sample_B =
    Some (multiply_serial sample_A sample_B)" using th v2 by metis
  show ?thesis using h1 h2 h3 h4 a1 a2 th by blast
qed

text \<open>
  Under the same condition an R\<times>0 matrix times a 0\<times>C matrix is the R\<times>C matrix of zeros
  with all three multipliers; no unit of execution has an iteration to run, so the empty
  schedule is the one execution.
\<close>

theorem zero_size_product:
  assumes "0 < hardware_concurrency"
  shows "multiply_serial (Matrix_new R 0) (Matrix_new 0 C) =
      (Inr (Matrix_new R C), Matrix_new R 0, Matrix_new 0 C :: ('a::{zero,plus,times}) Matrix) \<and>
    multiply_async sched (Matrix_new R 0) (Matrix_new 0 C) =
      (if sched = [] then Some (Inr (Matrix_new R C), Matrix_new R 0, Matrix_new 0 C :: 'a Matrix)
       else None) \<and>
    multiply_thread_pool hardware_concurrency sched (Matrix_new R 0) (Matrix_new 0 C) =
      (if sched = [] then Some (Inr (Matrix_new R C), Matrix_new R 0, Matrix_new 0 C :: 'a Matrix)
       else None)"
  using assms by (simp add: serial_zero_size async_zero_size pool_zero_size)

theorem zero_size_product_witness:
  "(0::nat) < 4 \<and>
   multiply_serial (Matrix_new 2 0) (Matrix_new 0 3) =
     (Inr (Matrix_new 2 3), Matrix_new 2 0, Matrix_new 0 3 :: int Matrix) \<and>
   multiply_async [] (Matrix_new 2 0) (Matrix_new 0 3) =
     Some (Inr (Matrix_new 2 3), Matrix_new 2 0, Matrix_new 0 3 :: int Matrix) \<and>
   multiply_thread_pool 4 [] (Matrix_new 2 0) (Matrix_new 0 3) =
     Some (Inr (Matrix_new 2 3), Matrix_new 2 0, Matrix_new 0 3 :: int Matrix)"
proof -
  have h: "(0::nat) < 4" by simp
  show ?thesis
    using h zero_size_product [OF h, of 2 3 "[]", where ?'a = int] by simp
qed

text \<open>
  Under the same condition a matrix times the identity matrix is the matrix itself, with
  all three multipliers and every schedule.
\<close>

theorem identity_product:
  fixes A :: "('a::semiring_1) Matrix"
  assumes "wf_Matrix A" "0 < hardware_concurrency"
  shows "multiply_serial A (identity_Matrix (cols A)) = (Inr A, A, identity_Matrix (cols A)) \<and>
    (\<forall>sched r. multiply_async sched A (identity_Matrix (cols A)) = Some r \<longrightarrow>
       r = (Inr A, A, identity_Matrix (cols A))) \<and>
    (\<forall>sched r. multiply_thread_pool hardware_concurrency sched A (identity_Matrix (cols A)) = Some r \<longrightarrow>
       r = (Inr A, A, identity_Matrix (cols A))) \<and>
    (\<exists>sched. multiply_async sched A (identity_Matrix (cols A)) =
       Some (Inr A, A, identity_Matrix (cols A))) \<and>
    (\<exists>sched. multiply_thread_pool hardware_concurrency sched A (identity_Matrix (cols A)) =
       Some (Inr A, A, identity_Matrix (cols A)))"
proof -
  let ?I = "identity_Matrix (cols A) :: 'a Matrix"
  have wfI: "wf_Matrix ?I" and dims: "cols A = rows ?I" by simp_all
  have s: "multiply_serial A ?I = (Inr A, A, ?I)" using assms(1) by (rule serial_identity)
  have "r = (Inr A, A, ?I)" if "multiply_async sched A ?I = Some r" for sched r
    using async_agrees [OF assms(1) wfI dims that] s by simp
  moreover have "r = (Inr A, A, ?I)"
    if "multiply_thread_pool hardware_concurrency sched A ?I = Some r" for sched r
    using pool_agrees [OF assms(1) wfI dims assms(2) that] s by simp
  moreover have "\<exists>sched. multiply_async sched A ?I = Some (Inr A, A, ?I)"
    using async_runs [OF assms(1) wfI dims] s by simp
  moreover have "\<exists>sched. multiply_thread_pool hardware_concurrency sched A ?I = Some (Inr A, A, ?I)"
    using pool_runs [OF assms(1) wfI dims assms(2)] s by simp
  ultimately show ?thesis using s by blast
qed

theorem identity_product_witness:
  "wf_Matrix sample_A \<and> (0::nat) < 2 \<and>
   multiply_serial sample_A (identity_Matrix (cols sample_A)) =
     (Inr sample_A, sample_A, identity_Matrix (cols sample_A)) \<and>
   (\<exists>sched. multiply_async sched sample_A (identity_Matrix (cols sample_A)) =
      Some (Inr sample_A, sample_A, identity_Matrix (cols sample_A))) \<and>
   (\<exists>sched. multiply_thread_pool 2 sched sample_A (identity_Matrix (cols sample_A)) =
      Some (Inr sample_A, sample_A, identity_Matrix (cols sample_A)))"
proof -
  have h1: "wf_Matrix sample_A" by code_simp
  have h2: "(0::nat) < 2" by simp
  show ?thesis using h1 h2 identity_product [OF h1 h2] by blast
qed

section \<open>Exact arithmetic\<close>

text \<open>
  Where the addition of the element type is associative and commutative with unit \<open>0\<close>
  (the integers, the rationals, the reals), the order of accumulation does not matter and
  element \<open>(i, j)\<close> of the serial product is the sum
  \<open>\<Sum>k<K. A[i][k] * B[k][j]\<close> of the matrix product.
\<close>

theorem multiply_serial_sum:
  fixes A B :: "('a::{comm_monoid_add,times}) Matrix"
  assumes "wf_Matrix A" "wf_Matrix B" "cols A = rows B"
  shows "\<exists>M. fst (multiply_serial A B) = Inr M \<and>
    (\<forall>i<rows A. \<forall>j<cols B.
       data M ! i ! j = (\<Sum>k = 0..<cols A. data A ! i ! k * data B ! k ! j))"
proof -
  let ?s = "foldl accumulate (fresh A B) (chunk_task A B 0 (rows A))"
  have "fst (multiply_serial A B) = Inr (result ?s)"
    using assms by (simp add: serial_run)
  moreover have "data (result ?s) ! i ! j = (\<Sum>k = 0..<cols A. data A ! i ! k * data B ! k ! j)"
    if "i < rows A" "j < cols B" for i j
    using that by (simp add: entry_all_iters foldl_plus_sum)
  ultimately show ?thesis by simp
qed

theorem multiply_serial_sum_witness:
  "wf_Matrix sample_A \<and> wf_Matrix sample_B \<and> cols sample_A = rows sample_B \<and>
   fst (multiply_serial sample_A sample_B) = Inr sample_AB \<and>
   (\<exists>M. fst (multiply_serial sample_A sample_B) = Inr M \<and>
      (\<forall>i<rows sample_A. \<forall>j<cols sample_B.
         data M ! i ! j = (\<Sum>k = 0..<cols sample_A. data sample_A ! i ! k * data sample_B ! k ! j)))"
proof -
  have h1: "wf_Matrix sample_A" by code_simp
  have h2: "wf_Matrix sample_B" by code_simp
  have h3: "cols sample_A = rows sample_B" by code_simp
  have v: "fst (multiply_serial sample_A sample_B) = Inr sample_AB" by code_simp
  show ?thesis
    by (intro conjI h1 h2 h3 v multiply_serial_sum [OF h1 h2 h3])
qed

end
